theory Spec2Isabelle
  imports Complex_Main "HOL-Library.AList" "HOL-Library.Product_Lexorder"
begin

section \<open>Data model\<close>

text \<open>
  Modelled from the spec: the type \<open>ProtocolNode\<close> is declared in \<open>lib/types\<close>, which
  is not part of the sources at hand.  The fields are the ones the components read:
  \<open>id\<close> (here \<open>node_id\<close>, since \<open>id\<close> is the identity function of HOL), \<open>parent_id\<close>
  (\<open>None\<close> is the JavaScript \<open>null\<close>, the no-parent sentinel), \<open>round_index\<close> (a
  non-negative integer), \<open>communication_tokens\<close> and \<open>rule\<close>.  JavaScript numbers are
  idealised: a round is a natural number and every other number an exact rational.
\<close>

record ProtocolNode =
  node_id :: string
  parent_id :: "string option"
  round_index :: nat
  communication_tokens :: rat
  rule :: string

text \<open>
  Modelled from the spec: the union \<open>OptimizeStreamEvent\<close> of \<open>lib/types\<close>, one
  constructor for each value of its \<open>type\<close> tag, with the fields of section 6.
\<close>

datatype OptimizeStreamEvent =
    Base_evaluated ProtocolNode "string list"
  | Candidate_evaluated ProtocolNode nat
  | Best_updated ProtocolNode "string list"
  | Done "ProtocolNode list" "string list" ProtocolNode
  | Error string


section \<open>The tree reducer (\<open>page.tsx\<close>)\<close>

text \<open>
  The React state cells that \<open>handleOptimizeEvent\<close> writes, as one record.  A setter
  called with a value replaces the cell; the setter called with a function
  (\<open>setOptNodes((prev) => [...prev, event.node])\<close>) applies it to the current value.
\<close>

record opt_state =
  optNodes :: "ProtocolNode list"
  optBestPath :: "string list"
  optBestNode :: "ProtocolNode option"
  optCurrentRound :: nat
  optError :: "string option"
  protocol :: string

fun handleOptimizeEvent :: "OptimizeStreamEvent \<Rightarrow> opt_state \<Rightarrow> opt_state" where
  "handleOptimizeEvent (Base_evaluated node best_path) s =
     s\<lparr>optNodes := [node], optBestPath := best_path, optBestNode := Some node,
       optCurrentRound := 0\<rparr>"
| "handleOptimizeEvent (Candidate_evaluated node r) s =
     s\<lparr>optNodes := optNodes s @ [node], optCurrentRound := r\<rparr>"
| "handleOptimizeEvent (Best_updated node best_path) s =
     s\<lparr>optBestPath := best_path, optBestNode := Some node\<rparr>"
| "handleOptimizeEvent (Done tree best_path best_node) s =
     s\<lparr>optNodes := tree, optBestPath := best_path, optBestNode := Some best_node,
       protocol := rule best_node\<rparr>"
| "handleOptimizeEvent (Error message) s = s\<lparr>optError := Some message\<rparr>"


section \<open>The tree layout engine (\<open>OptimizationTree.tsx\<close>)\<close>

text \<open>
  A \<open>TreeNode\<close> is a copy of a \<open>ProtocolNode\<close> with coordinates and a list of
  children.  The engine keeps every \<open>TreeNode\<close> it creates in \<open>nodeMap\<close>, a JavaScript
  \<open>Map\<close> from id to object, and every other reference to such an object (in a
  \<open>children\<close> array, in a round group, in \<open>root\<close>) is taken from that map after the
  last \<open>set\<close>.  So the map is the store of the mutable objects and a reference is a key
  of it: \<open>children\<close> and the round groups hold ids.  The map is an association list in
  insertion order, which is the order \<open>forEach\<close> visits; \<open>set\<close> on a key that is
  present replaces the value and keeps the position.
\<close>

record TreeNode = ProtocolNode +
  x :: rat
  y :: rat
  children :: "string list"

type_synonym nodeMap = "(string \<times> TreeNode) list"

definition deref :: "nodeMap \<Rightarrow> string \<Rightarrow> TreeNode" where
  "deref m k = the (map_of m k)"

definition new_TreeNode :: "ProtocolNode \<Rightarrow> TreeNode" where
  "new_TreeNode node =
     \<lparr>node_id = node_id node, parent_id = parent_id node, round_index = round_index node,
      communication_tokens = communication_tokens node, rule = rule node,
      x = 0, y = 0, children = []\<rparr>"

definition create_tree_nodes :: "ProtocolNode list \<Rightarrow> nodeMap" where
  "create_tree_nodes nodes =
     foldl (\<lambda>m node. AList.update (node_id node) (new_TreeNode node) m) [] nodes"

text \<open>
  One call of the callback of the second \<open>forEach\<close>, on the object stored under \<open>k\<close>:
  the pair is the local \<open>root\<close> and the store.
\<close>

definition attach :: "string \<Rightarrow> string option \<times> nodeMap \<Rightarrow> string option \<times> nodeMap" where
  "attach k st =
     (case parent_id (deref (snd st) k) of
        None \<Rightarrow> (Some k, snd st)
      | Some pid \<Rightarrow>
          (case map_of (snd st) pid of
             None \<Rightarrow> st
           | Some parent \<Rightarrow>
               (fst st, AList.map_entry pid (\<lambda>p. p\<lparr>children := children p @ [k]\<rparr>) (snd st))))"

definition build_relationships :: "nodeMap \<Rightarrow> string option \<times> nodeMap" where
  "build_relationships m = foldl (\<lambda>st k. attach k st) (None, m) (map fst m)"

type_synonym roundGroups = "(nat \<times> string list) list"

definition add_to_group :: "nodeMap \<Rightarrow> roundGroups \<Rightarrow> string \<Rightarrow> roundGroups" where
  "add_to_group m g k =
     (let r = round_index (deref m k);
          g1 = (if map_of g r = None then AList.update r [] g else g)
      in AList.map_entry r (\<lambda>ks. ks @ [k]) g1)"

definition group_by_round :: "nodeMap \<Rightarrow> roundGroups" where
  "group_by_round m = foldl (add_to_group m) [] (map fst m)"

text \<open>
  \<open>Array.prototype.sort\<close> with a comparator is a stable sort (ECMAScript 2019): the
  model is the stable insertion sort, which puts \<open>a\<close> before the first \<open>b\<close> that the
  comparator does not rank below it.
\<close>

fun insort_cmp :: "('a \<Rightarrow> 'a \<Rightarrow> rat) \<Rightarrow> 'a \<Rightarrow> 'a list \<Rightarrow> 'a list" where
  "insort_cmp cmp a [] = [a]"
| "insort_cmp cmp a (b # bs) = (if cmp a b \<le> 0 then a # b # bs else b # insort_cmp cmp a bs)"

definition sort_cmp :: "('a \<Rightarrow> 'a \<Rightarrow> rat) \<Rightarrow> 'a list \<Rightarrow> 'a list" where
  "sort_cmp cmp as = foldr (insort_cmp cmp) as []"

definition bestPathSet_has :: "string list \<Rightarrow> string \<Rightarrow> bool" where
  "bestPathSet_has bestPath k = (k \<in> set bestPath)"

definition compare_nodes :: "string list \<Rightarrow> nodeMap \<Rightarrow> string \<Rightarrow> string \<Rightarrow> rat" where
  "compare_nodes bestPath m a b =
     (let aIsBest = (if bestPathSet_has bestPath (node_id (deref m a)) then 0 else 1);
          bIsBest = (if bestPathSet_has bestPath (node_id (deref m b)) then 0 else 1)
      in if aIsBest \<noteq> bIsBest then aIsBest - bIsBest
         else communication_tokens (deref m a) - communication_tokens (deref m b))"

definition NODE_WIDTH :: rat where "NODE_WIDTH = 140"
definition NODE_HEIGHT :: rat where "NODE_HEIGHT = 80"
definition LEVEL_HEIGHT :: rat where "LEVEL_HEIGHT = 160"
definition NODE_SPACING :: rat where "NODE_SPACING = 20"

definition row_width :: "string list \<Rightarrow> rat" where
  "row_width roundNodes =
     of_nat (length roundNodes) * NODE_WIDTH + (of_nat (length roundNodes) - 1) * NODE_SPACING"

fun place_row :: "nat \<Rightarrow> nat \<Rightarrow> string list \<Rightarrow> nodeMap \<Rightarrow> nodeMap" where
  "place_row r index [] m = m"
| "place_row r index (k # ks) m =
     place_row r (Suc index) ks
       (AList.map_entry k
          (\<lambda>node. node\<lparr>x := of_nat index * (NODE_WIDTH + NODE_SPACING) + NODE_WIDTH / 2,
                       y := of_nat r * LEVEL_HEIGHT + NODE_HEIGHT / 2 + 40\<rparr>) m)"

text \<open>
  The first \<open>roundGroups.forEach\<close>: every group is sorted in place, widens \<open>maxWidth\<close>
  and has its nodes placed.  The result is the groups as sorted, \<open>maxWidth\<close> and the store.
\<close>

fun calculate_positions ::
  "string list \<Rightarrow> roundGroups \<Rightarrow> rat \<Rightarrow> nodeMap \<Rightarrow> roundGroups \<times> rat \<times> nodeMap" where
  "calculate_positions bestPath [] maxWidth m = ([], maxWidth, m)"
| "calculate_positions bestPath ((r, roundNodes) # gs) maxWidth m =
     (let sorted = sort_cmp (compare_nodes bestPath m) roundNodes;
          totalWidth = row_width sorted;
          (gs', maxWidth', m') =
             calculate_positions bestPath gs (max maxWidth totalWidth) (place_row r 0 sorted m)
      in ((r, sorted) # gs', maxWidth', m'))"

fun shift_row :: "rat \<Rightarrow> string list \<Rightarrow> nodeMap \<Rightarrow> nodeMap" where
  "shift_row offset [] m = m"
| "shift_row offset (k # ks) m =
     shift_row offset ks (AList.map_entry k (\<lambda>node. node\<lparr>x := x node + offset\<rparr>) m)"

fun center_rounds :: "rat \<Rightarrow> roundGroups \<Rightarrow> nodeMap \<Rightarrow> nodeMap" where
  "center_rounds maxWidth [] m = m"
| "center_rounds maxWidth ((r, roundNodes) # gs) m =
     center_rounds maxWidth gs (shift_row ((maxWidth - row_width roundNodes) / 2) roundNodes m)"

text \<open>
  What the first \<open>useMemo\<close> returns: \<open>treeRoot\<close> and \<open>layoutInfo\<close>, and with them the
  store, since \<open>treeRoot\<close> is a reference into it.
\<close>

record layout =
  treeRoot :: "string option"
  width :: rat
  height :: rat
  treeNodes :: nodeMap

definition empty_layout :: layout where
  "empty_layout = \<lparr>treeRoot = None, width = 800, height = 600, treeNodes = []\<rparr>"

definition layoutTree :: "ProtocolNode list \<Rightarrow> string list \<Rightarrow> layout" where
  "layoutTree nodes bestPath =
     (if length nodes = 0 then empty_layout
      else
        let (rt, m) = build_relationships (create_tree_nodes nodes) in
        (case rt of
           None \<Rightarrow> empty_layout
         | Some r \<Rightarrow>
             let (groups, maxWidth, m') =
                   calculate_positions bestPath (group_by_round m) 0 m;
                 m'' = center_rounds maxWidth groups m';
                 maxRound = Max (set (map fst groups))
             in \<lparr>treeRoot = Some r,
                 width = max (maxWidth + 80) 800,
                 height = (of_nat maxRound + 1) * LEVEL_HEIGHT + 100,
                 treeNodes = m''\<rparr>))"

text \<open>
  The two recursive closures \<open>traverse\<close>, of \<open>edges\<close> and of \<open>allNodes\<close>.  JavaScript
  recursion has no bound; the model counts the depth left and answers \<open>None\<close> when the
  count is used up, so that a traversal that would not return has no result.  An edge
  is the id of its \<open>from\<close> node, the id of its \<open>to\<close> node and the \<open>isBestPath\<close> flag.
\<close>

type_synonym edge = "string \<times> string \<times> bool"

fun traverse_edges :: "nat \<Rightarrow> string list \<Rightarrow> nodeMap \<Rightarrow> string \<Rightarrow> edge list option" where
  "traverse_edges 0 bestPath m v = None"
| "traverse_edges (Suc n) bestPath m v =
     map_option concat
       (those (map (\<lambda>child.
           map_option
             (Cons (v, child,
                bestPathSet_has bestPath (node_id (deref m v)) \<and>
                bestPathSet_has bestPath (node_id (deref m child))))
             (traverse_edges n bestPath m child))
         (children (deref m v))))"

fun traverse_nodes :: "nat \<Rightarrow> nodeMap \<Rightarrow> string \<Rightarrow> string list option" where
  "traverse_nodes 0 m v = None"
| "traverse_nodes (Suc n) m v =
     map_option (\<lambda>sub. v # concat sub) (those (map (traverse_nodes n m) (children (deref m v))))"

definition edges :: "nat \<Rightarrow> layout \<Rightarrow> string list \<Rightarrow> edge list option" where
  "edges fuel l bestPath =
     (case treeRoot l of None \<Rightarrow> Some [] | Some r \<Rightarrow> traverse_edges fuel bestPath (treeNodes l) r)"

definition allNodes :: "nat \<Rightarrow> layout \<Rightarrow> string list option" where
  "allNodes fuel l =
     (case treeRoot l of None \<Rightarrow> Some [] | Some r \<Rightarrow> traverse_nodes fuel (treeNodes l) r)"


section \<open>The layout engine on a heap (\<open>OptimizationTree.tsx\<close>)\<close>

text \<open>
  The same engine once more, with the objects and arrays where JavaScript has them: on
  a heap, reached through references.  This is the model in which a write to an array or
  an object of the caller can be told from a write to a copy, and in which a result can
  depend on what else the heap holds.  An address is an index into the list of cells;
  \<open>alloc\<close> appends a cell, an assignment replaces one.  An object has the fields of a
  \<open>ProtocolNode\<close> and the three properties that make it a \<open>TreeNode\<close>, each absent
  (\<open>None\<close>) or present; its \<open>children\<close> array is created with the object and reached
  only through it, so it is kept in the object's cell.  The array \<open>nodes\<close>, the array
  \<open>bestPath\<close> and the arrays of the round groups are cells of their own.  The two \<open>Map\<close>s
  and the \<open>Set\<close> are created by the engine and never leave it; they are values, a
  \<open>Map\<close> an association list in insertion order as before, now from ids to addresses.
  A read at an address of another kind of cell has no specified result: TypeScript's
  types exclude it.
\<close>

type_synonym addr = nat

record js_object = ProtocolNode +
  x_prop :: "rat option"
  y_prop :: "rat option"
  children_prop :: "addr list option"

datatype cell =
    is_Object: Object (the_object: js_object)
  | is_Array: Array (the_array: "addr list")
  | is_String_array: String_array (the_strings: "string list")

type_synonym heap = "cell list"

definition object_at :: "heap \<Rightarrow> addr \<Rightarrow> js_object" where
  "object_at h a = the_object (h ! a)"

definition array_at :: "heap \<Rightarrow> addr \<Rightarrow> addr list" where
  "array_at h a = the_array (h ! a)"

definition alloc :: "heap \<Rightarrow> cell \<Rightarrow> addr \<times> heap" where
  "alloc h c = (length h, h @ [c])"

text \<open>
  \<open>nodeMap.set(node.id, { ...node, x: 0, y: 0, children: [] })\<close>: the spread copies the
  properties of \<open>node\<close> into a new object, and the three that follow are set on the copy.
\<close>

definition copy_node :: "(string \<times> addr) list \<times> heap \<Rightarrow> addr \<Rightarrow> (string \<times> addr) list \<times> heap" where
  "copy_node st a =
     (let node = object_at (snd st) a;
          (t, h') = alloc (snd st)
                      (Object (node\<lparr>x_prop := Some 0, y_prop := Some 0, children_prop := Some []\<rparr>))
      in (AList.update (node_id node) t (fst st), h'))"

definition h_create_tree_nodes :: "heap \<Rightarrow> addr list \<Rightarrow> (string \<times> addr) list \<times> heap" where
  "h_create_tree_nodes h nodes = foldl copy_node ([], h) nodes"

definition push_child :: "addr \<Rightarrow> js_object \<Rightarrow> js_object" where
  "push_child a parent = parent\<lparr>children_prop := Some (the (children_prop parent) @ [a])\<rparr>"

definition h_attach ::
  "(string \<times> addr) list \<Rightarrow> addr option \<times> heap \<Rightarrow> addr \<Rightarrow> addr option \<times> heap" where
  "h_attach m st a =
     (case parent_id (object_at (snd st) a) of
        None \<Rightarrow> (Some a, snd st)
      | Some pid \<Rightarrow>
          (case map_of m pid of
             None \<Rightarrow> st
           | Some p \<Rightarrow> (fst st, (snd st)[p := Object (push_child a (object_at (snd st) p))])))"

definition h_build_relationships :: "(string \<times> addr) list \<Rightarrow> heap \<Rightarrow> addr option \<times> heap" where
  "h_build_relationships m h = foldl (h_attach m) (None, h) (map snd m)"

definition h_add_to_group :: "(nat \<times> addr) list \<times> heap \<Rightarrow> addr \<Rightarrow> (nat \<times> addr) list \<times> heap" where
  "h_add_to_group st a =
     (let r = round_index (object_at (snd st) a);
          st1 = (if map_of (fst st) r = None
                 then (let (g, h') = alloc (snd st) (Array []) in (AList.update r g (fst st), h'))
                 else st);
          g = the (map_of (fst st1) r)
      in (fst st1, (snd st1)[g := Array (array_at (snd st1) g @ [a])]))"

definition h_group_by_round :: "(string \<times> addr) list \<Rightarrow> heap \<Rightarrow> (nat \<times> addr) list \<times> heap" where
  "h_group_by_round m h = foldl h_add_to_group ([], h) (map snd m)"

definition h_compare_nodes :: "string list \<Rightarrow> heap \<Rightarrow> addr \<Rightarrow> addr \<Rightarrow> rat" where
  "h_compare_nodes bestPath h a b =
     (let aIsBest = (if bestPathSet_has bestPath (node_id (object_at h a)) then 0 else 1);
          bIsBest = (if bestPathSet_has bestPath (node_id (object_at h b)) then 0 else 1)
      in if aIsBest \<noteq> bIsBest then aIsBest - bIsBest
         else communication_tokens (object_at h a) - communication_tokens (object_at h b))"

fun h_place_row :: "nat \<Rightarrow> nat \<Rightarrow> addr list \<Rightarrow> heap \<Rightarrow> heap" where
  "h_place_row r index [] h = h"
| "h_place_row r index (a # as) h =
     h_place_row r (Suc index) as
       (h[a := Object ((object_at h a)
             \<lparr>x_prop := Some (of_nat index * (NODE_WIDTH + NODE_SPACING) + NODE_WIDTH / 2),
              y_prop := Some (of_nat r * LEVEL_HEIGHT + NODE_HEIGHT / 2 + 40)\<rparr>)])"

text \<open>
  The first loop over the round groups.  \<open>roundNodes.sort\<close> sorts in place: the sorted
  array is written back to the cell of the array.
\<close>

fun h_calculate_positions ::
  "string list \<Rightarrow> (nat \<times> addr) list \<Rightarrow> rat \<Rightarrow> heap \<Rightarrow> rat \<times> heap" where
  "h_calculate_positions bestPath [] maxWidth h = (maxWidth, h)"
| "h_calculate_positions bestPath ((r, g) # gs) maxWidth h =
     (let sorted = sort_cmp (h_compare_nodes bestPath h) (array_at h g);
          h1 = h[g := Array sorted];
          totalWidth = of_nat (length sorted) * NODE_WIDTH
                       + (of_nat (length sorted) - 1) * NODE_SPACING
      in h_calculate_positions bestPath gs (max maxWidth totalWidth) (h_place_row r 0 sorted h1))"

fun h_shift_row :: "rat \<Rightarrow> addr list \<Rightarrow> heap \<Rightarrow> heap" where
  "h_shift_row offset [] h = h"
| "h_shift_row offset (a # as) h =
     h_shift_row offset as
       (h[a := Object ((object_at h a)\<lparr>x_prop := Some (the (x_prop (object_at h a)) + offset)\<rparr>)])"

fun h_center_rounds :: "rat \<Rightarrow> (nat \<times> addr) list \<Rightarrow> heap \<Rightarrow> heap" where
  "h_center_rounds maxWidth [] h = h"
| "h_center_rounds maxWidth ((r, g) # gs) h =
     (let roundNodes = array_at h g;
          roundWidth = of_nat (length roundNodes) * NODE_WIDTH
                       + (of_nat (length roundNodes) - 1) * NODE_SPACING
      in h_center_rounds maxWidth gs (h_shift_row ((maxWidth - roundWidth) / 2) roundNodes h))"

text \<open>What the first \<open>useMemo\<close> returns: a reference to the root object and the canvas.\<close>

record h_layout =
  h_treeRoot :: "addr option"
  h_width :: rat
  h_height :: rat

definition h_empty_layout :: h_layout where
  "h_empty_layout = \<lparr>h_treeRoot = None, h_width = 800, h_height = 600\<rparr>"

text \<open>
  The body of the first \<open>useMemo\<close>, on the heap \<open>h\<close>, for the array of node references
  \<open>nodes\<close> and the ids \<open>bestPath\<close> that \<open>new Set(bestPath)\<close> has copied.
\<close>

definition h_layoutTree :: "heap \<Rightarrow> addr list \<Rightarrow> string list \<Rightarrow> heap \<times> h_layout" where
  "h_layoutTree h nodes bestPath =
     (if length nodes = 0 then (h, h_empty_layout)
      else
        let (m, h1) = h_create_tree_nodes h nodes;
            (rt, h2) = h_build_relationships m h1 in
        (case rt of
           None \<Rightarrow> (h2, h_empty_layout)
         | Some r \<Rightarrow>
             let (groups, h3) = h_group_by_round m h2;
                 (maxWidth, h4) = h_calculate_positions bestPath groups 0 h3;
                 h5 = h_center_rounds maxWidth groups h4;
                 maxRound = Max (set (map fst groups))
             in (h5, \<lparr>h_treeRoot = Some r,
                      h_width = max (maxWidth + 80) 800,
                      h_height = (of_nat maxRound + 1) * LEVEL_HEIGHT + 100\<rparr>)))"

fun h_traverse_edges ::
  "nat \<Rightarrow> string list \<Rightarrow> heap \<Rightarrow> addr \<Rightarrow> (addr \<times> addr \<times> bool) list option" where
  "h_traverse_edges 0 bestPath h v = None"
| "h_traverse_edges (Suc n) bestPath h v =
     map_option concat
       (those (map (\<lambda>child.
           map_option
             (Cons (v, child,
                bestPathSet_has bestPath (node_id (object_at h v)) \<and>
                bestPathSet_has bestPath (node_id (object_at h child))))
             (h_traverse_edges n bestPath h child))
         (the (children_prop (object_at h v)))))"

fun h_traverse_nodes :: "nat \<Rightarrow> heap \<Rightarrow> addr \<Rightarrow> addr list option" where
  "h_traverse_nodes 0 h v = None"
| "h_traverse_nodes (Suc n) h v =
     map_option (\<lambda>sub. v # concat sub)
       (those (map (h_traverse_nodes n h) (the (children_prop (object_at h v)))))"

text \<open>
  One render in which every \<open>useMemo\<close> runs its callback, as at the first render and
  whenever \<open>nodes\<close> and \<open>bestPath\<close> are new: the component is given a reference to the
  array \<open>nodes\<close> and one to the array \<open>bestPath\<close>, copies the ids of \<open>bestPath\<close> into
  \<open>bestPathSet\<close>, and computes the layout, the edges and the nodes to draw.  The result
  is the heap after the render and the three values, which hold references.
\<close>

record rendering =
  heap_after :: heap
  layout_ref :: h_layout
  edge_refs :: "(addr \<times> addr \<times> bool) list option"
  node_refs :: "addr list option"

definition h_render :: "nat \<Rightarrow> heap \<Rightarrow> addr \<Rightarrow> addr \<Rightarrow> rendering" where
  "h_render fuel h nodes_ref bestPath_ref =
     (let bestPath = the_strings (h ! bestPath_ref);
          (h', l) = h_layoutTree h (array_at h nodes_ref) bestPath
      in \<lparr>heap_after = h', layout_ref = l,
          edge_refs = (case h_treeRoot l of None \<Rightarrow> Some []
                       | Some r \<Rightarrow> h_traverse_edges fuel bestPath h' r),
          node_refs = (case h_treeRoot l of None \<Rightarrow> Some []
                       | Some r \<Rightarrow> h_traverse_nodes fuel h' r)\<rparr>)"

text \<open>
  What a render shows: for every node drawn its id and its coordinates, for every edge
  the ids of its two ends and its flag, the id of the root and the canvas size.
\<close>

definition shown_nodes :: "rendering \<Rightarrow> (string \<times> rat \<times> rat) list option" where
  "shown_nodes R =
     map_option (map (\<lambda>a. (node_id (object_at (heap_after R) a),
                            the (x_prop (object_at (heap_after R) a)),
                            the (y_prop (object_at (heap_after R) a)))))
       (node_refs R)"

definition shown_edges :: "rendering \<Rightarrow> edge list option" where
  "shown_edges R =
     map_option (map (\<lambda>e. (node_id (object_at (heap_after R) (fst e)),
                            node_id (object_at (heap_after R) (fst (snd e))),
                            snd (snd e))))
       (edge_refs R)"

definition shown_canvas :: "rendering \<Rightarrow> string option \<times> rat \<times> rat" where
  "shown_canvas R =
     (map_option (\<lambda>a. node_id (object_at (heap_after R) a)) (h_treeRoot (layout_ref R)),
      h_width (layout_ref R), h_height (layout_ref R))"


section \<open>The text-to-speech endpoint (\<open>api/tts/route.ts\<close>)\<close>

text \<open>
  A JavaScript string is a list of UTF-16 code units; \<open>js\<close> embeds an ASCII literal.
  A JSON value is what \<open>req.json()\<close> resolves to.
\<close>

type_synonym jsstring = "nat list"

definition js :: "string \<Rightarrow> jsstring" where
  "js s = map of_char s"

datatype json =
    JNull
  | JBool bool
  | JNum rat
  | JStr jsstring
  | JArr "json list"
  | JObj "(jsstring \<times> json) list"

text \<open>
  \<open>String.prototype.trim\<close> removes the white space and line terminators of ECMAScript
  from both ends.
\<close>

definition is_js_space :: "nat \<Rightarrow> bool" where
  "is_js_space c =
     (c = 9 \<or> c = 10 \<or> c = 11 \<or> c = 12 \<or> c = 13 \<or> c = 32 \<or> c = 160 \<or> c = 5760
      \<or> (8192 \<le> c \<and> c \<le> 8202) \<or> c = 8232 \<or> c = 8233 \<or> c = 8239 \<or> c = 8287
      \<or> c = 12288 \<or> c = 65279)"

definition trim :: "jsstring \<Rightarrow> jsstring" where
  "trim s = rev (dropWhile is_js_space (rev (dropWhile is_js_space s)))"

text \<open>
  A property read \<open>body.name\<close>.  On \<open>null\<close> it throws a \<open>TypeError\<close> (the outer
  \<open>None\<close>); on an object it is the member, or \<open>undefined\<close> (the inner \<open>None\<close>) when
  there is none; a boolean, a number, a string or an array has no property of the names
  read here.
\<close>

fun get_property :: "json \<Rightarrow> jsstring \<Rightarrow> json option option" where
  "get_property JNull name = None"
| "get_property (JObj members) name = Some (map_of members name)"
| "get_property v name = Some None"

text \<open>The same read on a value known not to be \<open>null\<close>.\<close>

definition map_of_json :: "json \<Rightarrow> jsstring \<Rightarrow> json option" where
  "map_of_json v name = (case get_property v name of None \<Rightarrow> None | Some p \<Rightarrow> p)"

datatype js_error = TypeError

text \<open>
  \<open>v?.trim() ?? ""\<close>: nothing is called on \<open>undefined\<close> and \<open>null\<close>, and the result
  \<open>undefined\<close> is replaced by the empty string; a string is trimmed; any other value has
  no \<open>trim\<close> method, and calling it throws.
\<close>

fun trim_or_empty :: "json option \<Rightarrow> js_error + jsstring" where
  "trim_or_empty None = Inr []"
| "trim_or_empty (Some JNull) = Inr []"
| "trim_or_empty (Some (JStr s)) = Inr (trim s)"
| "trim_or_empty (Some v) = Inl TypeError"

text \<open>\<open>a ?? b\<close> on a member that may be \<open>undefined\<close> or \<open>null\<close>.\<close>

fun nullish_or :: "json option \<Rightarrow> json \<Rightarrow> json" where
  "nullish_or None d = d"
| "nullish_or (Some JNull) d = d"
| "nullish_or (Some v) d = v"

fun truthy :: "json \<Rightarrow> bool" where
  "truthy JNull = False"
| "truthy (JBool b) = b"
| "truthy (JNum n) = (n \<noteq> 0)"
| "truthy (JStr s) = (s \<noteq> [])"
| "truthy v = True"

definition DEFAULT_VOICE_ID :: jsstring where
  "DEFAULT_VOICE_ID = js ''onwK4e9ZLuTAKqWW03F9''"
definition DEFAULT_MODEL_ID :: jsstring where
  "DEFAULT_MODEL_ID = js ''eleven_multilingual_v2''"
definition DEFAULT_OUTPUT_FORMAT :: jsstring where
  "DEFAULT_OUTPUT_FORMAT = js ''mp3_44100_128''"

record process_env =
  ELEVENLABS_API_KEY :: "jsstring option"
  ELEVENLABS_VOICE_ID :: "jsstring option"
  ELEVENLABS_MODEL_ID :: "jsstring option"
  ELEVENLABS_OUTPUT_FORMAT :: "jsstring option"

text \<open>
  The call of \<open>fetch\<close>: the voice id of the URL path, the \<open>output_format\<close> query
  parameter when it is set, the key header and the two members of the JSON body.  The
  answer of the provider: \<open>parsed\<close> is \<open>JSON.parse(rawText)\<close>, \<open>None\<close> when it throws.
\<close>

record upstream_request =
  voiceId :: json
  output_format :: "json option"
  xi_api_key :: jsstring
  req_text :: jsstring
  model_id :: json

record upstream_response =
  ok :: bool
  status :: nat
  rawText :: jsstring
  parsed :: "json option"
  content_type :: "jsstring option"
  arrayBuffer :: "nat list"

datatype response =
    Json_response nat jsstring
  | Audio_response nat jsstring "nat list"

text \<open>
  The handler.  \<open>body\<close> is the outcome of \<open>req.json()\<close>, \<open>None\<close> when it throws;
  \<open>fetch\<close> is the provider.  The result is the list of the requests sent upstream and
  either the response returned or the exception that leaves the handler.
\<close>

definition env_or :: "jsstring option \<Rightarrow> jsstring \<Rightarrow> json" where
  "env_or v d = (case v of None \<Rightarrow> JStr d | Some s \<Rightarrow> JStr s)"

definition upstream_detail :: "upstream_response \<Rightarrow> jsstring" where
  "upstream_detail up =
     (case parsed up of
        Some (JObj members) \<Rightarrow>
          (case map_of members (js ''detail'') of
             Some (JStr d) \<Rightarrow> d
           | _ \<Rightarrow> (if rawText up \<noteq> [] then rawText up else js ''ElevenLabs request failed''))
      | _ \<Rightarrow> (if rawText up \<noteq> [] then rawText up else js ''ElevenLabs request failed''))"

definition POST ::
  "process_env \<Rightarrow> json option \<Rightarrow> (upstream_request \<Rightarrow> upstream_response)
     \<Rightarrow> upstream_request list \<times> (js_error + response)" where
  "POST env body fetch =
     (case ELEVENLABS_API_KEY env of
        None \<Rightarrow> ([], Inr (Json_response 500 (js ''ELEVENLABS_API_KEY is not set'')))
      | Some apiKey \<Rightarrow>
        if apiKey = [] then ([], Inr (Json_response 500 (js ''ELEVENLABS_API_KEY is not set'')))
        else
        (case body of
           None \<Rightarrow> ([], Inr (Json_response 400 (js ''Invalid JSON payload'')))
         | Some b \<Rightarrow>
           (case get_property b (js ''text'') of
              None \<Rightarrow> ([], Inl TypeError)
            | Some t \<Rightarrow>
              (case trim_or_empty t of
                 Inl e \<Rightarrow> ([], Inl e)
               | Inr text \<Rightarrow>
                 if text = [] then ([], Inr (Json_response 400 (js ''text is required'')))
                 else
                   let voice = nullish_or (map_of_json b (js ''voice_id''))
                                 (env_or (ELEVENLABS_VOICE_ID env) DEFAULT_VOICE_ID);
                       model = nullish_or (map_of_json b (js ''model_id''))
                                 (env_or (ELEVENLABS_MODEL_ID env) DEFAULT_MODEL_ID);
                       outputFormat = nullish_or (map_of_json b (js ''output_format''))
                                 (env_or (ELEVENLABS_OUTPUT_FORMAT env) DEFAULT_OUTPUT_FORMAT);
                       request = \<lparr>voiceId = voice,
                                  output_format = (if truthy outputFormat then Some outputFormat else None),
                                  xi_api_key = apiKey, req_text = text, model_id = model\<rparr>;
                       upstream = fetch request
                   in if \<not> ok upstream
                      then ([request], Inr (Json_response (status upstream) (upstream_detail upstream)))
                      else ([request],
                            Inr (Audio_response 200
                                   (case content_type upstream of
                                      None \<Rightarrow> js ''audio/mpeg''
                                    | Some c \<Rightarrow> if c = [] then js ''audio/mpeg'' else c)
                                   (arrayBuffer upstream)))))))"


section \<open>Notions of the statements and proofs\<close>

text \<open>
  A store as \<open>create_tree_nodes\<close> leaves it: every object is stored under its own id
  and has no children yet.
\<close>

definition fresh_store :: "nodeMap \<Rightarrow> bool" where
  "fresh_store m = (\<forall>p \<in> set m. node_id (snd p) = fst p \<and> children (snd p) = [])"

text \<open>
  \<open>link ks m\<close> is the store after the callback has run on the keys \<open>ks\<close>: every
  object has gained, in this order, the keys of \<open>ks\<close> that name it as parent.
\<close>

definition link :: "string list \<Rightarrow> nodeMap \<Rightarrow> nodeMap" where
  "link ks m =
     map (\<lambda>p. (fst p, (snd p)\<lparr>children :=
            children (snd p) @ filter (\<lambda>c. parent_id (deref m c) = Some (fst p)) ks\<rparr>)) m"

text \<open>The local \<open>root\<close> after the callback has run on the keys \<open>ks\<close>.\<close>

fun last_root :: "nodeMap \<Rightarrow> string option \<Rightarrow> string list \<Rightarrow> string option" where
  "last_root m rt [] = rt"
| "last_root m rt (k # ks) = last_root m (if parent_id (deref m k) = None then Some k else rt) ks"

text \<open>
  \<open>visit_all f cs\<close> is a \<open>forEach\<close> over \<open>cs\<close> that appends what \<open>f\<close> yields for each
  element, and has no result as soon as one call has none.
\<close>

definition visit_all :: "('a \<Rightarrow> 'b list option) \<Rightarrow> 'a list \<Rightarrow> 'b list option" where
  "visit_all f cs = map_option concat (those (map f cs))"

text \<open>The edge that \<open>traverse\<close> pushes for a child.\<close>

definition edge_to :: "string list \<Rightarrow> nodeMap \<Rightarrow> string \<Rightarrow> string \<Rightarrow> edge" where
  "edge_to bestPath m v child =
     (v, child, bestPathSet_has bestPath (node_id (deref m v)) \<and>
                bestPathSet_has bestPath (node_id (deref m child)))"

text \<open>
  \<open>erase_xy\<close> forgets the coordinates.  The placement only writes \<open>x\<close> and \<open>y\<close>, and
  the traversals and the comparator do not read them.
\<close>

definition erase_xy :: "nodeMap \<Rightarrow> nodeMap" where
  "erase_xy m = map (\<lambda>p. (fst p, (snd p)\<lparr>x := 0, y := 0\<rparr>)) m"

text \<open>
  The store as \<open>build_relationships\<close> leaves it: every object is stored under its id
  and its children are the keys that name it as parent, in the order of the map.
\<close>

definition linked :: "nodeMap \<Rightarrow> bool" where
  "linked m =
     (distinct (map fst m) \<and>
      (\<forall>p \<in> set m. node_id (snd p) = fst p \<and>
         children (snd p) = filter (\<lambda>c. parent_id (deref m c) = Some (fst p)) (map fst m)))"

text \<open>The store and the root after \<open>build_relationships\<close>, for a node list.\<close>

definition skeleton :: "ProtocolNode list \<Rightarrow> nodeMap" where
  "skeleton ns = link (map fst (create_tree_nodes ns)) (create_tree_nodes ns)"

definition root_of :: "ProtocolNode list \<Rightarrow> string option" where
  "root_of ns = last_root (create_tree_nodes ns) None (map fst (create_tree_nodes ns))"

text \<open>\<open>up m d c\<close> follows the parent ids \<open>d\<close> times, starting at \<open>c\<close>.\<close>

fun up :: "nodeMap \<Rightarrow> nat \<Rightarrow> string \<Rightarrow> string option" where
  "up m 0 c = Some c"
| "up m (Suc d) c =
     (case map_of m c of
        None \<Rightarrow> None
      | Some t \<Rightarrow> (case parent_id t of None \<Rightarrow> None | Some p \<Rightarrow> up m d p))"

text \<open>A key whose object has no parent.\<close>

definition is_root :: "nodeMap \<Rightarrow> string \<Rightarrow> bool" where
  "is_root m r = (case map_of m r of None \<Rightarrow> False | Some t \<Rightarrow> parent_id t = None)"

text \<open>The two nodes of the scenario of the specification, section 8.\<close>

definition scenario_A :: ProtocolNode where
  "scenario_A = \<lparr>node_id = ''n0'', parent_id = None, round_index = 0,
                  communication_tokens = 120, rule = ''base''\<rparr>"

definition scenario_B :: ProtocolNode where
  "scenario_B = \<lparr>node_id = ''n1'', parent_id = Some ''n0'', round_index = 1,
                  communication_tokens = 80, rule = ''variant''\<rparr>"

text \<open>\<open>below m v\<close> are the keys whose chain of parent ids passes through \<open>v\<close>.\<close>

definition below :: "nodeMap \<Rightarrow> string \<Rightarrow> string set" where
  "below m v = {c \<in> set (map fst m). \<exists>d. up m d c = Some v}"

text \<open>
  \<open>ancestor nodes d c\<close> follows \<open>parent_id\<close> through the node list \<open>d\<close> times,
  starting at the id \<open>c\<close>; it has no value when an id on the way is the id of no node,
  or when a node on the way has no parent.
\<close>

fun ancestor :: "ProtocolNode list \<Rightarrow> nat \<Rightarrow> string \<Rightarrow> string option" where
  "ancestor nodes 0 c = Some c"
| "ancestor nodes (Suc d) c =
     (case find (\<lambda>n. node_id n = c) nodes of
        None \<Rightarrow> None
      | Some n \<Rightarrow> (case parent_id n of None \<Rightarrow> None | Some p \<Rightarrow> ancestor nodes d p))"

text \<open>A node that names itself as parent.\<close>

definition self_parent :: ProtocolNode where
  "self_parent = \<lparr>node_id = ''n1'', parent_id = Some ''n1'', round_index = 1,
                   communication_tokens = 80, rule = ''variant''\<rparr>"

text \<open>
  The two keys of the specification: first whether the id is off the best path, then
  the tokens; pairs are compared lexicographically.
\<close>

definition spec_sort_key :: "string list \<Rightarrow> string \<Rightarrow> rat \<Rightarrow> nat \<times> rat" where
  "spec_sort_key bestPath i tokens = (if i \<in> set bestPath then 0 else 1, tokens)"

text \<open>The keys of round \<open>r\<close> among \<open>ks\<close>, and a node placed at an index of its row.\<close>

definition round_keys :: "nodeMap \<Rightarrow> string list \<Rightarrow> nat \<Rightarrow> string list" where
  "round_keys m ks r = filter (\<lambda>k. round_index (deref m k) = r) ks"

definition placed :: "nat \<Rightarrow> nat \<Rightarrow> TreeNode \<Rightarrow> TreeNode" where
  "placed r index node =
     node\<lparr>x := of_nat index * (NODE_WIDTH + NODE_SPACING) + NODE_WIDTH / 2,
          y := of_nat r * LEVEL_HEIGHT + NODE_HEIGHT / 2 + 40\<rparr>"

text \<open>The round groups after the in-place sorts.\<close>

definition sorted_groups :: "string list \<Rightarrow> nodeMap \<Rightarrow> roundGroups \<Rightarrow> roundGroups" where
  "sorted_groups bp m gs = map (\<lambda>g. (fst g, sort_cmp (compare_nodes bp m) (snd g))) gs"

text \<open>The nodes of round \<open>r\<close>, in the order of the input.\<close>

definition round_nodes :: "ProtocolNode list \<Rightarrow> nat \<Rightarrow> ProtocolNode list" where
  "round_nodes nodes r = filter (\<lambda>n. round_index n = r) nodes"

text \<open>
  The order of the specification within round \<open>r\<close>: the stable sort of the nodes of the
  round, taken in the order of the input, by the two keys.
\<close>

definition spec_round_order :: "ProtocolNode list \<Rightarrow> string list \<Rightarrow> nat \<Rightarrow> ProtocolNode list" where
  "spec_round_order nodes bestPath r =
     sort_key (\<lambda>n. spec_sort_key bestPath (node_id n) (communication_tokens n)) (round_nodes nodes r)"

text \<open>The width of a row of \<open>n\<close> nodes.\<close>

definition width_of_row :: "nat \<Rightarrow> rat" where
  "width_of_row n = of_nat n * NODE_WIDTH + (of_nat n - 1) * NODE_SPACING"

text \<open>The width of the widest round.\<close>

definition spec_widest_row :: "ProtocolNode list \<Rightarrow> rat" where
  "spec_widest_row nodes =
     Max ((\<lambda>r. width_of_row (length (round_nodes nodes r))) ` round_index ` set nodes)"

text \<open>
  Two more nodes of round 1, from the third scenario of the specification: neither is on
  the best path, the tokens are 50 and 30.
\<close>

definition scenario_C :: ProtocolNode where
  "scenario_C = \<lparr>node_id = ''n2'', parent_id = Some ''n0'', round_index = 1,
                  communication_tokens = 50, rule = ''fifty''\<rparr>"

definition scenario_D :: ProtocolNode where
  "scenario_D = \<lparr>node_id = ''n3'', parent_id = Some ''n0'', round_index = 1,
                  communication_tokens = 30, rule = ''thirty''\<rparr>"





text \<open>
  The engine on the heap is compared with the engine on the store.  \<open>id_at\<close> reads the
  id of the object at an address; \<open>tree_node_at\<close> is that object as a \<open>TreeNode\<close> of the
  store, its children named by their ids; \<open>store_of\<close> and \<open>groups_of\<close> read a
  \<open>nodeMap\<close> and the round groups off the heap.
\<close>

definition id_at :: "heap \<Rightarrow> addr \<Rightarrow> string" where
  "id_at h a = node_id (object_at h a)"

definition as_TreeNode :: "(addr \<Rightarrow> string) \<Rightarrow> js_object \<Rightarrow> TreeNode" where
  "as_TreeNode ident ob =
     \<lparr>node_id = node_id ob, parent_id = parent_id ob, round_index = round_index ob,
      communication_tokens = communication_tokens ob, rule = rule ob,
      x = the (x_prop ob), y = the (y_prop ob),
      children = map ident (the (children_prop ob))\<rparr>"

definition tree_node_at :: "heap \<Rightarrow> addr \<Rightarrow> TreeNode" where
  "tree_node_at h a = as_TreeNode (id_at h) (object_at h a)"

definition store_of :: "(string \<times> addr) list \<Rightarrow> heap \<Rightarrow> nodeMap" where
  "store_of m h = map (\<lambda>p. (fst p, tree_node_at h (snd p))) m"

definition groups_of :: "(nat \<times> addr) list \<Rightarrow> heap \<Rightarrow> roundGroups" where
  "groups_of gs h = map (\<lambda>q. (fst q, map (id_at h) (array_at h (snd q)))) gs"

text \<open>
  The objects of the engine, as they are from \<open>create_tree_nodes\<close> on: the map has one
  entry for an id, the object of an entry lies at an address from \<open>L\<close> up to \<open>L1\<close>, has the
  id of the entry, and its children are objects of the map.
\<close>

definition objects_ok :: "nat \<Rightarrow> nat \<Rightarrow> (string \<times> addr) list \<Rightarrow> heap \<Rightarrow> bool" where
  "objects_ok L L1 m h =
     (L \<le> L1 \<and> L1 \<le> length h \<and> distinct (map fst m) \<and>
      (\<forall>p \<in> set m. L \<le> snd p \<and> snd p < L1 \<and> id_at h (snd p) = fst p \<and>
         set (the (children_prop (object_at h (snd p)))) \<subseteq> snd ` set m))"

text \<open>
  The arrays of the round groups: one array for a round, no array shared by two rounds, at
  an address from \<open>L1\<close> on, holding objects of the map.
\<close>

definition groups_ok :: "nat \<Rightarrow> (string \<times> addr) list \<Rightarrow> (nat \<times> addr) list \<Rightarrow> heap \<Rightarrow> bool" where
  "groups_ok L1 m gs h =
     (distinct (map fst gs) \<and> distinct (map snd gs) \<and>
      (\<forall>q \<in> set gs. L1 \<le> snd q \<and> snd q < length h \<and>
         set (array_at h (snd q)) \<subseteq> snd ` set m))"

text \<open>\<open>h'\<close> has at least the cells of \<open>h\<close>, and those below \<open>L\<close> are as in \<open>h\<close>.\<close>

definition same_below :: "nat \<Rightarrow> heap \<Rightarrow> heap \<Rightarrow> bool" where
  "same_below L h h' = (length h \<le> length h' \<and> (\<forall>a < L. h' ! a = h ! a))"

text \<open>\<open>h'\<close> is \<open>h\<close> with nothing but objects of the map written.\<close>

definition same_but :: "(string \<times> addr) list \<Rightarrow> heap \<Rightarrow> heap \<Rightarrow> bool" where
  "same_but m h h' = (length h' = length h \<and> (\<forall>c. c \<notin> snd ` set m \<longrightarrow> h' ! c = h ! c))"

text \<open>
  The node list and the best path that a render is given, read off the heap, and the
  references of a well-typed call: \<open>nodes\<close> is an array of objects, \<open>bestPath\<close> an array
  of strings.
\<close>

definition nodes_given :: "heap \<Rightarrow> addr \<Rightarrow> ProtocolNode list" where
  "nodes_given h nodes_ref = map (\<lambda>a. ProtocolNode.truncate (object_at h a)) (array_at h nodes_ref)"

definition bestPath_given :: "heap \<Rightarrow> addr \<Rightarrow> string list" where
  "bestPath_given h bestPath_ref = the_strings (h ! bestPath_ref)"

definition well_typed :: "heap \<Rightarrow> addr \<Rightarrow> addr \<Rightarrow> bool" where
  "well_typed h nodes_ref bestPath_ref =
     (nodes_ref < length h \<and> is_Array (h ! nodes_ref) \<and>
      bestPath_ref < length h \<and> is_String_array (h ! bestPath_ref) \<and>
      list_all (\<lambda>a. a < length h \<and> is_Object (h ! a)) (array_at h nodes_ref))"

text \<open>What the engine on the store gives to draw for a node: its id and its coordinates.\<close>

definition drawn_nodes :: "nat \<Rightarrow> layout \<Rightarrow> (string \<times> rat \<times> rat) list option" where
  "drawn_nodes fuel l =
     map_option (map (\<lambda>k. (k, x (deref (treeNodes l) k), y (deref (treeNodes l) k))))
       (allNodes fuel l)"

text \<open>
  Two heaps that hold the two nodes of the scenario as the component is given them.  In
  the second the cells lie at other addresses, the best path lists its ids in another
  order and one of them twice, and there is a cell more that the render is given no
  reference to.
\<close>

definition input_object :: "ProtocolNode \<Rightarrow> cell" where
  "input_object n =
     Object \<lparr>node_id = node_id n, parent_id = parent_id n, round_index = round_index n,
             communication_tokens = communication_tokens n, rule = rule n,
             x_prop = None, y_prop = None, children_prop = None\<rparr>"

definition heap_1 :: heap where
  "heap_1 = [input_object scenario_A, input_object scenario_B, Array [0, 1],
             String_array [''n0'', ''n1'']]"

definition heap_2 :: heap where
  "heap_2 = [String_array [''n1'', ''n0'', ''n1''], Array [4, 2], input_object scenario_B,
             Object \<lparr>node_id = ''n0'', parent_id = Some ''n1'', round_index = 7,
                     communication_tokens = 1, rule = ''other'',
                     x_prop = Some 5, y_prop = Some 5, children_prop = Some [2]\<rparr>,
             input_object scenario_A]"


section \<open>Properties of the tree reducer\<close>

text \<open>
  Claim C4.  A \<open>candidate_evaluated\<close> event appends its node to the accumulated list:
  the list grows by exactly one, the nodes stored before are still there, in place and
  unchanged, and the new last element is the event's node.  The current round becomes the
  event's \<open>round_index\<close>; the best path and the best node stay as they were.
\<close>

theorem candidate_evaluated_appends:
  "optNodes (handleOptimizeEvent (Candidate_evaluated node r) s) = optNodes s @ [node]
   \<and> length (optNodes (handleOptimizeEvent (Candidate_evaluated node r) s))
       = length (optNodes s) + 1
   \<and> take (length (optNodes s))
        (optNodes (handleOptimizeEvent (Candidate_evaluated node r) s)) = optNodes s
   \<and> optCurrentRound (handleOptimizeEvent (Candidate_evaluated node r) s) = r
   \<and> optBestPath (handleOptimizeEvent (Candidate_evaluated node r) s) = optBestPath s
   \<and> optBestNode (handleOptimizeEvent (Candidate_evaluated node r) s) = optBestNode s"
  by simp

text \<open>
  Claim C5.  A \<open>done\<close> event replaces the accumulated list by the event's \<open>tree\<close>, the
  best path by the event's \<open>best_path\<close> and the best node by the event's \<open>best_node\<close>,
  and the rule text of that node becomes the active protocol text.
\<close>

theorem done_replaces_everything:
  "optNodes (handleOptimizeEvent (Done tree best_path best_node) s) = tree
   \<and> optBestPath (handleOptimizeEvent (Done tree best_path best_node) s) = best_path
   \<and> optBestNode (handleOptimizeEvent (Done tree best_path best_node) s) = Some best_node
   \<and> protocol (handleOptimizeEvent (Done tree best_path best_node) s) = rule best_node"
  by simp

text \<open>
  Claim C6.  An \<open>error\<close> event stores its message, character for character, in the error
  cell that the page shows, and writes nothing else: the accumulated nodes, the best
  path, the best node and the current round are those of the state before the event.
\<close>

theorem error_event_only_surfaces_message:
  "handleOptimizeEvent (Error message) s = s\<lparr>optError := Some message\<rparr>
   \<and> optError (handleOptimizeEvent (Error message) s) = Some message
   \<and> optNodes (handleOptimizeEvent (Error message) s) = optNodes s
   \<and> optBestPath (handleOptimizeEvent (Error message) s) = optBestPath s
   \<and> optBestNode (handleOptimizeEvent (Error message) s) = optBestNode s
   \<and> optCurrentRound (handleOptimizeEvent (Error message) s) = optCurrentRound s"
  by simp

text \<open>
  Claim C8.  A \<open>base_evaluated\<close> event resets the accumulated list to the one-element
  list of the event's node, sets the best path to the event's \<open>best_path\<close> and the best
  node to the event's node, and resets the current round to 0.
\<close>

theorem base_evaluated_resets:
  "optNodes (handleOptimizeEvent (Base_evaluated node best_path) s) = [node]
   \<and> optBestPath (handleOptimizeEvent (Base_evaluated node best_path) s) = best_path
   \<and> optBestNode (handleOptimizeEvent (Base_evaluated node best_path) s) = Some node
   \<and> optCurrentRound (handleOptimizeEvent (Base_evaluated node best_path) s) = 0"
  by simp


section \<open>Properties of the text-to-speech endpoint\<close>

lemma trim_blank: "list_all is_js_space s \<Longrightarrow> trim s = []"
proof -
  assume "list_all is_js_space s"
  then have blank: "dropWhile is_js_space s = []"
    by (simp add: list_all_iff)
  show ?thesis
    unfolding trim_def blank by simp
qed

lemma POST_no_credential:
  "ELEVENLABS_API_KEY env = None \<or> ELEVENLABS_API_KEY env = Some [] \<Longrightarrow>
   POST env body fetch = ([], Inr (Json_response 500 (js ''ELEVENLABS_API_KEY is not set'')))"
  by (auto simp: POST_def)

lemma POST_invalid_json:
  "ELEVENLABS_API_KEY env = Some apiKey \<Longrightarrow> apiKey \<noteq> [] \<Longrightarrow>
   POST env None fetch = ([], Inr (Json_response 400 (js ''Invalid JSON payload'')))"
  by (simp add: POST_def)

lemma POST_text_required:
  "ELEVENLABS_API_KEY env = Some apiKey \<Longrightarrow> apiKey \<noteq> [] \<Longrightarrow>
   get_property b (js ''text'') = Some t \<Longrightarrow>
   t = None \<or> t = Some JNull \<or> (\<exists>s. t = Some (JStr s) \<and> list_all is_js_space s) \<Longrightarrow>
   POST env (Some b) fetch = ([], Inr (Json_response 400 (js ''text is required'')))"
  by (auto simp: POST_def trim_blank)

text \<open>
  Claim C9.  Without the credential the handler answers 500, on a body that is not JSON
  400, and on a body whose \<open>text\<close> is \<open>undefined\<close>, \<open>null\<close>, empty or blank 400, each
  time without a request upstream (the three lemmas above).  One body without a text is
  not answered so: with the credential configured, on the JSON value \<open>null\<close> the read
  of \<open>body.text\<close> throws a \<open>TypeError\<close> that the handler does not catch, so the handler
  returns no response of its own.  No request is sent upstream there either.
\<close>

theorem POST_null_body_throws:
  "POST \<lparr>ELEVENLABS_API_KEY = Some (js ''key''), ELEVENLABS_VOICE_ID = None,
         ELEVENLABS_MODEL_ID = None, ELEVENLABS_OUTPUT_FORMAT = None\<rparr> (Some JNull) fetch
   = ([], Inl TypeError)"
  by (simp add: POST_def js_def)


section \<open>Properties of the layout engine\<close>

subsection \<open>The store as an association list\<close>

lemma map_fst_map_entry: "map fst (AList.map_entry k f m) = map fst m"
  by (induction m) auto

lemma map_entry_as_map:
  "distinct (map fst m) \<Longrightarrow>
   AList.map_entry k f m = map (\<lambda>p. (fst p, if fst p = k then f (snd p) else snd p)) m"
proof (induction m)
  case Nil
  then show ?case by simp
next
  case (Cons p m)
  then have "fst p \<notin> fst ` set m" by simp
  then have "map (\<lambda>q. (fst q, if fst q = fst p then f (snd q) else snd q)) m = m"
    by (induction m) auto
  with Cons show ?case by auto
qed

lemma map_of_map_values:
  "map_of (map (\<lambda>p. (fst p, g (fst p) (snd p))) m) k = map_option (g k) (map_of m k)"
  by (induction m) auto

subsection \<open>Creating the objects\<close>

lemma distinct_create_tree_nodes: "distinct (map fst (create_tree_nodes ns))"
proof -
  have "distinct (map fst m) \<Longrightarrow>
        distinct (map fst (foldl (\<lambda>m node. AList.update (node_id node) (new_TreeNode node) m) m ns))" for m
    by (induction ns arbitrary: m) (auto simp: distinct_update)
  then show ?thesis by (simp add: create_tree_nodes_def)
qed

lemma set_update_subset: "p \<in> set (AList.update k v m) \<Longrightarrow> p \<in> set m \<or> p = (k, v)"
  by (induction m) (auto split: if_splits)

lemma fresh_update:
  assumes "fresh_store m"
  shows "fresh_store (AList.update (node_id n) (new_TreeNode n) m)"
  unfolding fresh_store_def
proof
  fix p assume "p \<in> set (AList.update (node_id n) (new_TreeNode n) m)"
  then have "p \<in> set m \<or> p = (node_id n, new_TreeNode n)"
    by (rule set_update_subset)
  then show "node_id (snd p) = fst p \<and> children (snd p) = []"
  proof
    assume "p \<in> set m"
    with assms show ?thesis by (simp add: fresh_store_def)
  next
    assume "p = (node_id n, new_TreeNode n)"
    then show ?thesis by (simp add: new_TreeNode_def)
  qed
qed

lemma fresh_create_tree_nodes: "fresh_store (create_tree_nodes ns)"
proof -
  have "fresh_store m \<Longrightarrow>
        fresh_store (foldl (\<lambda>m node. AList.update (node_id node) (new_TreeNode node) m) m ns)" for m
    by (induction ns arbitrary: m) (auto simp: fresh_update)
  moreover have "fresh_store []" by (simp add: fresh_store_def)
  ultimately show ?thesis unfolding create_tree_nodes_def by blast
qed

text \<open>With pairwise distinct ids the map lists the nodes in the order of the input.\<close>

lemma create_tree_nodes_distinct_ids:
  "distinct (map node_id ns) \<Longrightarrow>
   create_tree_nodes ns = map (\<lambda>n. (node_id n, new_TreeNode n)) ns"
proof -
  have "distinct (map fst m @ map node_id ns) \<Longrightarrow>
        foldl (\<lambda>m node. AList.update (node_id node) (new_TreeNode node) m) m ns
          = m @ map (\<lambda>n. (node_id n, new_TreeNode n)) ns" for m
  proof (induction ns arbitrary: m)
    case Nil
    then show ?case by simp
  next
    case (Cons n ns)
    have notin: "node_id n \<notin> fst ` set m" using Cons.prems by auto
    have upd: "AList.update (node_id n) v m = m @ [(node_id n, v)]" for v
      using notin by (induction m) auto
    have "distinct (map fst (m @ [(node_id n, new_TreeNode n)]) @ map node_id ns)"
      using Cons.prems by auto
    from Cons.IH[OF this] show ?case by (simp add: upd)
  qed
  from this[of "[]"] show "distinct (map node_id ns) \<Longrightarrow> ?thesis"
    by (simp add: create_tree_nodes_def)
qed

subsection \<open>Building the parent-child relationships\<close>

lemma map_fst_link: "map fst (link ks m) = map fst m"
  by (simp add: link_def comp_def)

lemma map_of_link:
  "map_of (link ks m) k =
   map_option (\<lambda>t. t\<lparr>children := children t @ filter (\<lambda>c. parent_id (deref m c) = Some k) ks\<rparr>)
     (map_of m k)"
  unfolding link_def
  by (rule map_of_map_values
      [of "\<lambda>k t. t\<lparr>children := children t @ filter (\<lambda>c. parent_id (deref m c) = Some k) ks\<rparr>"])

lemma parent_id_deref_link: "parent_id (deref (link ks m) k) = parent_id (deref m k)"
  by (cases "map_of m k") (simp_all add: deref_def map_of_link)

lemma link_Nil: "link [] m = m"
  by (simp add: link_def)

lemma link_append: "link ks2 (link ks1 m) = link (ks1 @ ks2) m"
  by (simp add: link_def parent_id_deref_link[unfolded link_def] comp_def)

lemma attach_snd:
  assumes "distinct (map fst m)"
  shows "snd (attach c (rt, m)) = link [c] m"
proof (cases "parent_id (deref m c)")
  case None
  then show ?thesis by (simp add: attach_def link_def)
next
  case (Some pid)
  show ?thesis
  proof (cases "map_of m pid")
    case None
    then have "\<forall>p \<in> set m. fst p \<noteq> pid"
      by (metis map_of_eq_None_iff image_eqI)
    then have "link [c] m = m"
      unfolding link_def using \<open>parent_id (deref m c) = Some pid\<close>
      by (intro map_idI) auto
    with Some None show ?thesis by (simp add: attach_def)
  next
    case (Some parent)
    have "snd (attach c (rt, m)) = AList.map_entry pid (\<lambda>p. p\<lparr>children := children p @ [c]\<rparr>) m"
      using Some \<open>parent_id (deref m c) = Some pid\<close> by (simp add: attach_def)
    also have "\<dots> = map (\<lambda>p. (fst p, if fst p = pid then (snd p)\<lparr>children := children (snd p) @ [c]\<rparr> else snd p)) m"
      by (rule map_entry_as_map[OF assms])
    also have "\<dots> = link [c] m"
      unfolding link_def using \<open>parent_id (deref m c) = Some pid\<close>
      by (intro map_cong refl) auto
    finally show ?thesis .
  qed
qed

lemma attach_fst:
  "fst (attach c (rt, m)) = (if parent_id (deref m c) = None then Some c else rt)"
  by (auto simp: attach_def split: option.splits)

lemma foldl_attach:
  "distinct (map fst m) \<Longrightarrow>
   foldl (\<lambda>st k. attach k st) (rt, m) ks = (last_root m rt ks, link ks m)"
proof (induction ks arbitrary: rt m)
  case Nil
  then show ?case by (simp add: link_Nil)
next
  case (Cons k ks)
  have step: "attach k (rt, m) = (if parent_id (deref m k) = None then Some k else rt, link [k] m)"
    by (rule prod_eqI) (simp_all add: attach_fst attach_snd[OF Cons.prems])
  have d: "distinct (map fst (link [k] m))"
    using Cons.prems by (simp add: map_fst_link)
  have lr: "last_root (link [k] m) r ks = last_root m r ks" for r
    by (induction ks arbitrary: r) (simp_all add: parent_id_deref_link)
  have "link ks (link [k] m) = link (k # ks) m"
    using link_append[of ks "[k]" m] by simp
  then show ?case
    by (simp add: step Cons.IH[OF d] lr)
qed

lemma build_relationships_eq:
  "distinct (map fst m) \<Longrightarrow>
   build_relationships m = (last_root m None (map fst m), link (map fst m) m)"
  by (simp add: build_relationships_def foldl_attach)

subsection \<open>The two traversals\<close>

lemma visit_all_Nil: "visit_all f [] = Some []"
  by (simp add: visit_all_def)

lemma visit_all_Cons:
  "visit_all f (c # cs) =
   (case f c of None \<Rightarrow> None | Some a \<Rightarrow> map_option ((@) a) (visit_all f cs))"
  by (simp add: visit_all_def option.map_comp comp_def split: option.splits)

lemma visit_all_cong:
  "cs = cs' \<Longrightarrow> (\<And>c. c \<in> set cs' \<Longrightarrow> f c = g c) \<Longrightarrow> visit_all f cs = visit_all g cs'"
  by (simp add: visit_all_def cong: map_cong)

lemma traverse_nodes_Suc:
  "traverse_nodes (Suc n) m v =
   map_option (Cons v) (visit_all (traverse_nodes n m) (children (deref m v)))"
  by (simp add: visit_all_def option.map_comp comp_def)

lemma traverse_edges_Suc:
  "traverse_edges (Suc n) bp m v =
   visit_all (\<lambda>c. map_option (Cons (edge_to bp m v c)) (traverse_edges n bp m c))
     (children (deref m v))"
  by (simp add: visit_all_def edge_to_def)

declare traverse_nodes.simps(2) [simp del] traverse_edges.simps(2) [simp del]

lemma visit_all_mono:
  "(\<And>c a. c \<in> set cs \<Longrightarrow> f c = Some a \<Longrightarrow> g c = Some a) \<Longrightarrow>
   visit_all f cs = Some L \<Longrightarrow> visit_all g cs = Some L"
proof (induction cs arbitrary: L)
  case Nil
  then show ?case by (simp add: visit_all_Nil)
next
  case (Cons c cs)
  from Cons.prems(2) obtain a b where a: "f c = Some a" and b: "visit_all f cs = Some b"
    and L: "L = a @ b"
    by (auto simp: visit_all_Cons split: option.splits)
  have "g c = Some a" using Cons.prems(1) a by simp
  moreover have "visit_all g cs = Some b"
    using Cons.IH[OF _ b] Cons.prems(1) by simp
  ultimately show ?case by (simp add: visit_all_Cons L)
qed

lemma traverse_nodes_mono:
  "traverse_nodes n m v = Some L \<Longrightarrow> traverse_nodes (Suc n) m v = Some L"
proof (induction n arbitrary: v L)
  case 0
  then show ?case by simp
next
  case (Suc n)
  from Suc.prems obtain L' where L': "visit_all (traverse_nodes n m) (children (deref m v)) = Some L'"
    and L: "L = v # L'"
    by (auto simp: traverse_nodes_Suc)
  have "visit_all (traverse_nodes (Suc n) m) (children (deref m v)) = Some L'"
    by (rule visit_all_mono[OF _ L']) (rule Suc.IH)
  then show ?case
    unfolding traverse_nodes_Suc[of "Suc n"] L by simp
qed

lemma traverse_nodes_mono_le:
  "n \<le> n' \<Longrightarrow> traverse_nodes n m v = Some L \<Longrightarrow> traverse_nodes n' m v = Some L"
  by (induction n' rule: dec_induct) (auto intro: traverse_nodes_mono)

text \<open>The targets of the edges are the nodes visited after the start node, in order.\<close>

lemma traverse_nodes_edges:
  "traverse_nodes n m v = map_option (\<lambda>es. v # map (fst \<circ> snd) es) (traverse_edges n bp m v)"
proof (induction n arbitrary: v)
  case 0
  then show ?case by simp
next
  case (Suc n)
  have inner: "visit_all (traverse_nodes n m) cs =
        map_option (map (fst \<circ> snd))
          (visit_all (\<lambda>c. map_option (Cons (edge_to bp m v c)) (traverse_edges n bp m c)) cs)" for cs
  proof (induction cs)
    case Nil
    then show ?case by (simp add: visit_all_Nil)
  next
    case (Cons c cs)
    show ?case
      by (cases "traverse_edges n bp m c")
         (simp_all add: visit_all_Cons Suc.IH[of c] Cons.IH option.map_comp comp_def edge_to_def)
  qed
  show ?case
    unfolding traverse_nodes_Suc traverse_edges_Suc inner
    by (simp add: option.map_comp comp_def)
qed

subsection \<open>Coordinates do not change the tree\<close>

lemma map_fst_erase_xy: "map fst (erase_xy m) = map fst m"
  by (simp add: erase_xy_def comp_def)

lemma map_of_erase_xy: "map_of (erase_xy m) k = map_option (\<lambda>t. t\<lparr>x := 0, y := 0\<rparr>) (map_of m k)"
  unfolding erase_xy_def by (rule map_of_map_values[of "\<lambda>k t. t\<lparr>x := 0, y := 0\<rparr>"])

lemma deref_erase_xy:
  "children (deref (erase_xy m) k) = children (deref m k)"
  "node_id (deref (erase_xy m) k) = node_id (deref m k)"
  "parent_id (deref (erase_xy m) k) = parent_id (deref m k)"
  "round_index (deref (erase_xy m) k) = round_index (deref m k)"
  "communication_tokens (deref (erase_xy m) k) = communication_tokens (deref m k)"
  by (cases "map_of m k"; simp add: deref_def map_of_erase_xy)+

lemma erase_xy_map_entry_x:
  "erase_xy (AList.map_entry k (\<lambda>t. t\<lparr>x := a t\<rparr>) m) = erase_xy m"
  by (induction m) (simp_all add: erase_xy_def)

lemma erase_xy_map_entry_xy:
  "erase_xy (AList.map_entry k (\<lambda>t. t\<lparr>x := a, y := b\<rparr>) m) = erase_xy m"
  by (induction m) (simp_all add: erase_xy_def)

lemma traverse_nodes_erase_xy: "traverse_nodes n (erase_xy m) v = traverse_nodes n m v"
proof (induction n arbitrary: v)
  case 0
  then show ?case by simp
next
  case (Suc n)
  then show ?case
    by (simp add: traverse_nodes_Suc deref_erase_xy cong: visit_all_cong)
qed

lemma traverse_edges_erase_xy: "traverse_edges n bp (erase_xy m) v = traverse_edges n bp m v"
proof (induction n arbitrary: v)
  case 0
  then show ?case by simp
next
  case (Suc n)
  then show ?case
    by (simp add: traverse_edges_Suc deref_erase_xy edge_to_def cong: visit_all_cong)
qed

lemma linked_link:
  assumes "fresh_store m" and "distinct (map fst m)"
  shows "linked (link (map fst m) m)"
  unfolding linked_def
proof (intro conjI ballI)
  show "distinct (map fst (link (map fst m) m))"
    using assms(2) by (simp add: map_fst_link)
next
  fix p assume "p \<in> set (link (map fst m) m)"
  then obtain q where q: "q \<in> set m"
    and p: "p = (fst q, (snd q)\<lparr>children := children (snd q) @
                filter (\<lambda>c. parent_id (deref m c) = Some (fst q)) (map fst m)\<rparr>)"
    unfolding link_def by auto
  from q assms(1) have "node_id (snd q) = fst q" "children (snd q) = []"
    by (simp_all add: fresh_store_def)
  then show "node_id (snd p) = fst p" 
    and "children (snd p) =
         filter (\<lambda>c. parent_id (deref (link (map fst m) m) c) = Some (fst p))
           (map fst (link (map fst m) m))"
    by (simp_all add: p parent_id_deref_link map_fst_link)
qed

lemma linked_erase_xy: "linked (erase_xy m) = linked m"
proof -
  have "(\<forall>p \<in> set (erase_xy m). node_id (snd p) = fst p \<and>
         children (snd p) = filter (\<lambda>c. parent_id (deref m c) = Some (fst p)) (map fst m))
      = (\<forall>p \<in> set m. node_id (snd p) = fst p \<and>
         children (snd p) = filter (\<lambda>c. parent_id (deref m c) = Some (fst p)) (map fst m))"
    by (simp add: erase_xy_def)
  then show ?thesis
    by (simp add: linked_def map_fst_erase_xy deref_erase_xy)
qed

lemma linked_deref:
  assumes "linked m" and "k \<in> set (map fst m)"
  shows "node_id (deref m k) = k"
    and "children (deref m k) = filter (\<lambda>c. parent_id (deref m c) = Some k) (map fst m)"
proof -
  from assms(2) obtain t where t: "(k, t) \<in> set m" by auto
  with assms(1) have "map_of m k = Some t"
    by (simp add: linked_def)
  then have d: "deref m k = t" by (simp add: deref_def)
  from assms(1) t have "node_id (snd (k, t)) = fst (k, t) \<and>
      children (snd (k, t)) = filter (\<lambda>c. parent_id (deref m c) = Some (fst (k, t))) (map fst m)"
    unfolding linked_def by blast
  then show "node_id (deref m k) = k"
    and "children (deref m k) = filter (\<lambda>c. parent_id (deref m c) = Some k) (map fst m)"
    by (simp_all add: d)
qed

lemma linked_child:
  assumes "linked m" and "v \<in> set (map fst m)" and "c \<in> set (children (deref m v))"
  shows "c \<in> set (map fst m)" and "parent_id (deref m c) = Some v"
  using assms by (simp_all add: linked_deref(2))

subsection \<open>The tree that a layout holds\<close>

lemma erase_xy_place_row: "erase_xy (place_row r i ks m) = erase_xy m"
  by (induction ks arbitrary: i m) (simp_all add: erase_xy_map_entry_xy)

lemma erase_xy_shift_row: "erase_xy (shift_row off ks m) = erase_xy m"
  by (induction ks arbitrary: m) (simp_all add: erase_xy_map_entry_x)

lemma erase_xy_center_rounds: "erase_xy (center_rounds mw gs m) = erase_xy m"
  by (induction gs arbitrary: m) (auto simp: erase_xy_shift_row)

lemma erase_xy_calculate_positions:
  "erase_xy (snd (snd (calculate_positions bp gs mw m))) = erase_xy m"
proof (induction gs arbitrary: mw m)
  case Nil
  then show ?case by simp
next
  case (Cons g gs)
  obtain r ks where g: "g = (r, ks)" by (cases g)
  show ?case
    unfolding g
    by (simp add: Let_def split_beta Cons.IH erase_xy_place_row)
qed

lemma build_create:
  "build_relationships (create_tree_nodes ns) = (root_of ns, skeleton ns)"
  by (simp add: build_relationships_eq distinct_create_tree_nodes root_of_def skeleton_def)

lemma root_of_Nil: "root_of [] = None"
  by (simp add: root_of_def create_tree_nodes_def)

lemma treeRoot_layoutTree: "treeRoot (layoutTree ns bp) = root_of ns"
proof (cases "ns = []")
  case True
  then show ?thesis by (simp add: layoutTree_def empty_layout_def root_of_Nil)
next
  case False
  then show ?thesis
    by (cases "root_of ns")
       (simp_all add: layoutTree_def build_create empty_layout_def Let_def split_beta)
qed

lemma erase_treeNodes_layoutTree:
  "root_of ns = Some r \<Longrightarrow> erase_xy (treeNodes (layoutTree ns bp)) = erase_xy (skeleton ns)"
  by (cases "ns = []")
     (simp_all add: layoutTree_def build_create root_of_Nil Let_def split_beta
        erase_xy_center_rounds erase_xy_calculate_positions)

lemma linked_skeleton: "linked (skeleton ns)"
  unfolding skeleton_def
  by (rule linked_link[OF fresh_create_tree_nodes distinct_create_tree_nodes])

lemma map_fst_skeleton: "map fst (skeleton ns) = map fst (create_tree_nodes ns)"
  by (simp add: skeleton_def map_fst_link)

lemma edges_layoutTree:
  "edges fuel (layoutTree ns bp) bp' =
   (case root_of ns of None \<Rightarrow> Some [] | Some r \<Rightarrow> traverse_edges fuel bp' (skeleton ns) r)"
proof (cases "root_of ns")
  case None
  then show ?thesis by (simp add: edges_def treeRoot_layoutTree)
next
  case (Some r)
  have "traverse_edges fuel bp' (treeNodes (layoutTree ns bp)) r
        = traverse_edges fuel bp' (erase_xy (treeNodes (layoutTree ns bp))) r"
    by (simp add: traverse_edges_erase_xy)
  also have "\<dots> = traverse_edges fuel bp' (skeleton ns) r"
    by (simp add: erase_treeNodes_layoutTree[OF Some] traverse_edges_erase_xy)
  finally show ?thesis
    by (simp add: edges_def treeRoot_layoutTree Some)
qed

lemma allNodes_layoutTree:
  "allNodes fuel (layoutTree ns bp) =
   (case root_of ns of None \<Rightarrow> Some [] | Some r \<Rightarrow> traverse_nodes fuel (skeleton ns) r)"
proof (cases "root_of ns")
  case None
  then show ?thesis by (simp add: allNodes_def treeRoot_layoutTree)
next
  case (Some r)
  have "traverse_nodes fuel (treeNodes (layoutTree ns bp)) r
        = traverse_nodes fuel (erase_xy (treeNodes (layoutTree ns bp))) r"
    by (simp add: traverse_nodes_erase_xy)
  also have "\<dots> = traverse_nodes fuel (skeleton ns) r"
    by (simp add: erase_treeNodes_layoutTree[OF Some] traverse_nodes_erase_xy)
  finally show ?thesis
    by (simp add: allNodes_def treeRoot_layoutTree Some)
qed

text \<open>The root is a key whose object has no parent.\<close>

lemma last_root_cases:
  "last_root m rt ks = Some r \<Longrightarrow>
   rt = Some r \<or> (r \<in> set ks \<and> parent_id (deref m r) = None)"
  by (induction ks arbitrary: rt) (auto split: if_splits)

lemma root_of_key:
  assumes "root_of ns = Some r"
  shows "r \<in> set (map fst (skeleton ns))" and "parent_id (deref (skeleton ns) r) = None"
proof -
  from assms have "r \<in> set (map fst (create_tree_nodes ns)) \<and>
      parent_id (deref (create_tree_nodes ns) r) = None"
    unfolding root_of_def using last_root_cases by fastforce
  then show "r \<in> set (map fst (skeleton ns))" and "parent_id (deref (skeleton ns) r) = None"
    using map_fst_skeleton[of ns] by (simp_all add: skeleton_def parent_id_deref_link)
qed

subsection \<open>The traversal from the root returns\<close>

text \<open>
  A node that the traversal reaches lies on a chain of parent ids that ends at the root,
  and the root has no parent: such a chain cannot visit a key twice, so it is shorter
  than the store has keys, and a depth count above the number of keys is never used up.
\<close>

lemma up_add: "up m (d + e) c = Option.bind (up m d c) (up m e)"
  by (induction d arbitrary: c) (simp_all split: option.splits)

lemma up_from_root: "is_root m r \<Longrightarrow> up m (Suc j) r = None"
  by (simp add: is_root_def split: option.splits)

lemma up_depth_le:
  assumes "is_root m r" and "up m d a = Some r" and "up m d' a = Some r" and "d \<le> d'"
  shows "d = d'"
proof -
  from \<open>d \<le> d'\<close> obtain j where j: "d' = d + j" using le_Suc_ex by blast
  have "up m j r = Some r"
    using assms(2,3) by (simp add: j up_add)
  then have "j = 0"
    using up_from_root[OF assms(1)] by (cases j) simp_all
  with j show ?thesis by simp
qed

lemma up_depth_unique:
  "is_root m r \<Longrightarrow> up m d a = Some r \<Longrightarrow> up m d' a = Some r \<Longrightarrow> d = d'"
  using up_depth_le[of m r d a d'] up_depth_le[of m r d' a d]
  by (cases "d \<le> d'") simp_all

lemma up_key: "up m (Suc d) c = Some r \<Longrightarrow> c \<in> set (map fst m)"
  by (auto split: option.splits dest: map_of_SomeD) (metis fst_conv image_eqI map_of_SomeD)

lemma is_root_key: "is_root m r \<Longrightarrow> r \<in> set (map fst m)"
  unfolding is_root_def
  by (cases "map_of m r") (simp_all, metis fst_conv image_eqI map_of_SomeD)

lemma up_depth_bound:
  assumes root: "is_root m r" and up: "up m e v = Some r"
  shows "e < length m"
proof -
  define f where "f i = the (up m i v)" for i
  have split: "up m i v = Some (f i) \<and> up m (e - i) (f i) = Some r" if "i \<le> e" for i
  proof -
    from that have "Option.bind (up m i v) (up m (e - i)) = Some r"
      using up up_add[of m i "e - i" v] by simp
    then show ?thesis
      by (cases "up m i v") (simp_all add: f_def)
  qed
  have inj: "inj_on f {..e}"
  proof (rule inj_onI)
    fix i j assume "i \<in> {..e}" "j \<in> {..e}" "f i = f j"
    then have "up m (e - i) (f i) = Some r" "up m (e - j) (f i) = Some r"
      using split[of i] split[of j] by simp_all
    then have "e - i = e - j" by (rule up_depth_unique[OF root])
    with \<open>i \<in> {..e}\<close> \<open>j \<in> {..e}\<close> show "i = j" by simp
  qed
  have sub: "f ` {..e} \<subseteq> set (map fst m)"
  proof
    fix a assume "a \<in> f ` {..e}"
    then obtain i where i: "i \<le> e" and a: "a = f i" by auto
    show "a \<in> set (map fst m)"
    proof (cases "i = e")
      case True
      then have "f i = r" using split[of e] by simp
      then show ?thesis using is_root_key[OF root] a by simp
    next
      case False
      then obtain j where "e - i = Suc j" using i by (metis Suc_diff_Suc le_neq_implies_less)
      then have "up m (Suc j) (f i) = Some r" using split[OF i] by simp
      then show ?thesis using up_key a by blast
    qed
  qed
  have "card {..e} = card (f ` {..e})"
    using inj by (simp add: card_image)
  also have "\<dots> \<le> card (set (map fst m))"
    by (rule card_mono[OF _ sub]) simp
  also have "\<dots> \<le> length m"
    using card_length[of "map fst m"] by simp
  finally show ?thesis by simp
qed

lemma visit_all_total: "(\<And>c. c \<in> set cs \<Longrightarrow> f c \<noteq> None) \<Longrightarrow> visit_all f cs \<noteq> None"
  by (induction cs) (auto simp: visit_all_Nil visit_all_Cons split: option.splits)

lemma linked_child_up:
  assumes "linked m" and "v \<in> set (map fst m)" and "c \<in> set (children (deref m v))"
  shows "up m (Suc d) c = up m d v"
proof -
  have c: "c \<in> set (map fst m)" and p: "parent_id (deref m c) = Some v"
    using linked_child[OF assms] by simp_all
  from c obtain t where "map_of m c = Some t"
    by (metis domIff dom_map_of_conv_image_fst not_Some_eq set_map)
  with p show ?thesis by (simp add: deref_def)
qed

lemma traverse_nodes_total_aux:
  assumes "linked m" and "is_root m r"
  shows "up m e v = Some r \<Longrightarrow> v \<in> set (map fst m) \<Longrightarrow> length m < n + e \<Longrightarrow>
         traverse_nodes n m v \<noteq> None"
proof (induction n arbitrary: v e)
  case 0
  then show ?case using up_depth_bound[OF assms(2), of e v] by simp
next
  case (Suc n)
  have "visit_all (traverse_nodes n m) (children (deref m v)) \<noteq> None"
  proof (rule visit_all_total)
    fix c assume c: "c \<in> set (children (deref m v))"
    have "up m (Suc e) c = Some r"
      using linked_child_up[OF assms(1) Suc.prems(2) c] Suc.prems(1) by simp
    moreover have "c \<in> set (map fst m)"
      using linked_child(1)[OF assms(1) Suc.prems(2) c] .
    moreover have "length m < n + Suc e" using Suc.prems(3) by simp
    ultimately show "traverse_nodes n m c \<noteq> None" by (rule Suc.IH)
  qed
  then show ?case by (simp add: traverse_nodes_Suc)
qed

lemma traverse_nodes_total:
  assumes "linked m" and "is_root m r" and "length m < n"
  shows "\<exists>L. traverse_nodes n m r = Some L"
proof -
  have "traverse_nodes n m r \<noteq> None"
    by (rule traverse_nodes_total_aux[OF assms(1,2), of 0]) 
       (use assms(3) is_root_key[OF assms(2)] in simp_all)
  then show ?thesis by auto
qed

subsection \<open>The edges and their flags\<close>

lemma length_update_le: "length (AList.update k v m) \<le> Suc (length m)"
  by (induction m) auto

lemma length_create_tree_nodes: "length (create_tree_nodes ns) \<le> length ns"
proof -
  have "length (foldl (\<lambda>m node. AList.update (node_id node) (new_TreeNode node) m) m ns)
        \<le> length m + length ns" for m
  proof (induction ns arbitrary: m)
    case Nil
    then show ?case by simp
  next
    case (Cons n ns)
    show ?case
      using Cons.IH[of "AList.update (node_id n) (new_TreeNode n) m"]
        length_update_le[of "node_id n" "new_TreeNode n" m]
      by simp
  qed
  from this[of "[]"] show ?thesis by (simp add: create_tree_nodes_def)
qed

lemma length_skeleton: "length (skeleton ns) \<le> length ns"
  using length_create_tree_nodes[of ns] by (simp add: skeleton_def link_def)

lemma is_root_skeleton:
  assumes "root_of ns = Some r"
  shows "is_root (skeleton ns) r"
proof -
  from root_of_key[OF assms] obtain t where t: "map_of (skeleton ns) r = Some t"
    by (metis domIff dom_map_of_conv_image_fst not_Some_eq set_map)
  with root_of_key(2)[OF assms] show ?thesis
    by (simp add: is_root_def deref_def)
qed

lemma traverse_edges_None: "traverse_edges n bp m v = None \<longleftrightarrow> traverse_nodes n m v = None"
  by (simp add: traverse_nodes_edges[of n m v bp])

lemma visit_all_member:
  "visit_all f cs = Some es \<Longrightarrow> e \<in> set es \<Longrightarrow> \<exists>c \<in> set cs. \<exists>a. f c = Some a \<and> e \<in> set a"
proof (induction cs arbitrary: es)
  case Nil
  then show ?case by (simp add: visit_all_Nil)
next
  case (Cons c cs)
  from Cons.prems(1) obtain a b where a: "f c = Some a" and b: "visit_all f cs = Some b"
    and es: "es = a @ b"
    by (auto simp: visit_all_Cons split: option.splits)
  from Cons.prems(2) es consider "e \<in> set a" | "e \<in> set b" by auto
  then show ?case
  proof cases
    case 1
    with a show ?thesis by auto
  next
    case 2
    from Cons.IH[OF b 2] show ?thesis by auto
  qed
qed

text \<open>
  Every edge goes from a key to one of its children, and its flag says that both ids are
  in the best-path set.
\<close>

lemma traverse_edges_sound:
  assumes "linked m"
  shows "traverse_edges n bp m v = Some es \<Longrightarrow> v \<in> set (map fst m) \<Longrightarrow> e \<in> set es \<Longrightarrow>
         fst e \<in> set (map fst m) \<and> fst (snd e) \<in> set (map fst m)
         \<and> parent_id (deref m (fst (snd e))) = Some (fst e)
         \<and> snd (snd e) = (fst e \<in> set bp \<and> fst (snd e) \<in> set bp)"
proof (induction n arbitrary: v es)
  case 0
  then show ?case by simp
next
  case (Suc n)
  from Suc.prems(1) have "visit_all (\<lambda>c. map_option (Cons (edge_to bp m v c)) (traverse_edges n bp m c))
      (children (deref m v)) = Some es"
    by (simp add: traverse_edges_Suc)
  from visit_all_member[OF this Suc.prems(3)]
  obtain c a where c: "c \<in> set (children (deref m v))"
    and a: "map_option (Cons (edge_to bp m v c)) (traverse_edges n bp m c) = Some a"
    and e: "e \<in> set a"
    by blast
  from a obtain es' where es': "traverse_edges n bp m c = Some es'"
    and a': "a = edge_to bp m v c # es'"
    by auto
  have ck: "c \<in> set (map fst m)" and cp: "parent_id (deref m c) = Some v"
    using linked_child[OF assms Suc.prems(2) c] by simp_all
  from e a' consider "e = edge_to bp m v c" | "e \<in> set es'" by auto
  then show ?case
  proof cases
    case 1
    then show ?thesis
      using ck cp Suc.prems(2) linked_deref(1)[OF assms ck] linked_deref(1)[OF assms Suc.prems(2)]
      by (simp add: edge_to_def bestPathSet_has_def)
  next
    case 2
    from Suc.IH[OF es' ck 2] show ?thesis .
  qed
qed

text \<open>
  Claim C3.  With a depth count above the number of nodes the edge traversal returns, and
  every edge it has emitted carries the flag \<open>isBestPath\<close> exactly when the id of its
  parent end and the id of its child end are both members of the best-path set.  The
  position of the two ids in the best-path sequence plays no part: the condition is
  membership in the set of the sequence.
\<close>

theorem best_path_edge_flag:
  assumes "length nodes < fuel"
  shows "\<exists>es. edges fuel (layoutTree nodes bestPath) bestPath = Some es
           \<and> (\<forall>e \<in> set es. snd (snd e) = (fst e \<in> set bestPath \<and> fst (snd e) \<in> set bestPath))"
proof (cases "root_of nodes")
  case None
  then show ?thesis by (simp add: edges_layoutTree)
next
  case (Some r)
  have "length (skeleton nodes) < fuel"
    using length_skeleton[of nodes] assms by simp
  from traverse_nodes_total[OF linked_skeleton is_root_skeleton[OF Some] this]
  have "traverse_edges fuel bestPath (skeleton nodes) r \<noteq> None"
    by (auto simp: traverse_edges_None)
  then obtain es where es: "traverse_edges fuel bestPath (skeleton nodes) r = Some es"
    by auto
  have "\<forall>e \<in> set es. snd (snd e) = (fst e \<in> set bestPath \<and> fst (snd e) \<in> set bestPath)"
    using traverse_edges_sound[OF linked_skeleton es root_of_key(1)[OF Some]] by blast
  with es show ?thesis by (simp add: edges_layoutTree Some)
qed

theorem best_path_edge_flag_witness:
  "length [scenario_A, scenario_B] < 3
   \<and> (\<exists>es. edges 3 (layoutTree [scenario_A, scenario_B] [''n1'', ''zz'', ''n0''])
                 [''n1'', ''zz'', ''n0''] = Some es
           \<and> es = [(''n0'', ''n1'', True)]
           \<and> list_all (\<lambda>e. snd (snd e) = (fst e \<in> set [''n1'', ''zz'', ''n0'']
                                        \<and> fst (snd e) \<in> set [''n1'', ''zz'', ''n0''])) es)"
proof -
  have ev: "edges 3 (layoutTree [scenario_A, scenario_B] [''n1'', ''zz'', ''n0''])
              [''n1'', ''zz'', ''n0''] = Some [(''n0'', ''n1'', True)]"
    by code_simp
  have len: "length [scenario_A, scenario_B] < 3" by simp
  from best_path_edge_flag[OF len, of "[''n1'', ''zz'', ''n0'']"] ev
  show ?thesis by (simp add: list_all_iff)
qed

subsection \<open>The nodes that the traversal lists\<close>

lemma visit_all_distinct:
  assumes "distinct cs"
    and "\<And>c a. c \<in> set cs \<Longrightarrow> f c = Some a \<Longrightarrow> distinct a \<and> set a = B c"
    and "\<And>c c'. c \<in> set cs \<Longrightarrow> c' \<in> set cs \<Longrightarrow> c \<noteq> c' \<Longrightarrow> B c \<inter> B c' = {}"
    and "visit_all f cs = Some L"
  shows "distinct L \<and> set L = (\<Union>c \<in> set cs. B c)"
  using assms
proof (induction cs arbitrary: L)
  case Nil
  then show ?case by (simp add: visit_all_Nil)
next
  case (Cons c cs)
  from Cons.prems(4) obtain a b where a: "f c = Some a" and b: "visit_all f cs = Some b"
    and L: "L = a @ b"
    by (auto simp: visit_all_Cons split: option.splits)
  have A: "distinct a \<and> set a = B c"
    using Cons.prems(2)[of c a] a by simp
  have Bs: "distinct b \<and> set b = (\<Union>c \<in> set cs. B c)"
  proof (rule Cons.IH[OF _ _ _ b])
    show "distinct cs" using Cons.prems(1) by simp
    show "\<And>c a. c \<in> set cs \<Longrightarrow> f c = Some a \<Longrightarrow> distinct a \<and> set a = B c"
      by (rule Cons.prems(2)) simp_all
    show "\<And>c c'. c \<in> set cs \<Longrightarrow> c' \<in> set cs \<Longrightarrow> c \<noteq> c' \<Longrightarrow> B c \<inter> B c' = {}"
      by (rule Cons.prems(3)) simp_all
  qed
  have "B c \<inter> B c' = {}" if "c' \<in> set cs" for c'
    using Cons.prems(3)[of c c'] Cons.prems(1) that by auto
  then have "set a \<inter> set b = {}"
    using A Bs by auto
  then show ?case
    using A Bs by (simp add: L)
qed

lemma up_one:
  "up m (Suc 0) c = Some v \<longleftrightarrow> (\<exists>t. map_of m c = Some t \<and> parent_id t = Some v)"
  by (auto split: option.splits)

lemma up_Suc_right: "up m (Suc d) u = Option.bind (up m d u) (up m (Suc 0))"
  using up_add[of m d "Suc 0" u] by simp


lemma below_step:
  assumes "linked m" and "v \<in> set (map fst m)"
  shows "below m v = insert v (\<Union>c \<in> set (children (deref m v)). below m c)"
proof (intro set_eqI iffI)
  fix u assume "u \<in> below m v"
  then obtain d where xk: "u \<in> set (map fst m)" and d: "up m d u = Some v"
    by (auto simp: below_def)
  show "u \<in> insert v (\<Union>c \<in> set (children (deref m v)). below m c)"
  proof (cases d)
    case 0
    with d show ?thesis by simp
  next
    case (Suc d')
    with d have "Option.bind (up m d' u) (up m (Suc 0)) = Some v"
      using up_Suc_right[of m d' u] by simp
    then obtain c where c: "up m d' u = Some c" and cv: "up m (Suc 0) c = Some v"
      by (cases "up m d' u") simp_all
    from cv obtain t where t: "map_of m c = Some t" "parent_id t = Some v"
      unfolding up_one by blast
    then have ck: "c \<in> set (map fst m)"
      by (metis fst_conv image_eqI map_of_SomeD set_map)
    have "parent_id (deref m c) = Some v" using t by (simp add: deref_def)
    with ck have "c \<in> set (children (deref m v))"
      by (simp add: linked_deref(2)[OF assms])
    moreover have "u \<in> below m c" using xk c by (auto simp: below_def)
    ultimately show ?thesis by blast
  qed
next
  fix u assume "u \<in> insert v (\<Union>c \<in> set (children (deref m v)). below m c)"
  then consider "u = v" | c where "c \<in> set (children (deref m v))" "u \<in> below m c"
    by blast
  then show "u \<in> below m v"
  proof cases
    case 1
    have "up m 0 v = Some v" by simp
    with assms(2) 1 show ?thesis unfolding below_def by blast
  next
    case 2
    from 2(2) obtain d where xk: "u \<in> set (map fst m)" and d: "up m d u = Some c"
      by (auto simp: below_def)
    have "up m (Suc 0) c = Some v"
      using linked_child_up[OF assms 2(1), of 0] by simp
    then have "up m (Suc d) u = Some v"
      using d by (simp add: up_Suc_right[of m d u] del: up.simps)
    with xk show ?thesis unfolding below_def by blast
  qed
qed

lemma traverse_nodes_below:
  assumes "linked m" and "is_root m r"
  shows "traverse_nodes n m v = Some L \<Longrightarrow> v \<in> set (map fst m) \<Longrightarrow> up m e v = Some r \<Longrightarrow>
         distinct L \<and> set L = below m v"
proof (induction n arbitrary: v e L)
  case 0
  then show ?case by simp
next
  case (Suc n)
  let ?cs = "children (deref m v)"
  from Suc.prems(1) obtain L' where L': "visit_all (traverse_nodes n m) ?cs = Some L'"
    and L: "L = v # L'"
    by (auto simp: traverse_nodes_Suc)
  have child: "c \<in> set (map fst m) \<and> up m (Suc e) c = Some r" if "c \<in> set ?cs" for c
    using linked_child(1)[OF assms(1) Suc.prems(2) that]
      linked_child_up[OF assms(1) Suc.prems(2) that, of e] Suc.prems(3) by simp
  have deeper: "up m (d + Suc e) u = Some r" if "c \<in> set ?cs" "up m d u = Some c" for c d u
  proof -
    have "up m (d + Suc e) u = Option.bind (up m d u) (up m (Suc e))"
      by (rule up_add)
    also have "\<dots> = up m (Suc e) c"
      using that(2) by (simp del: up.simps)
    finally show ?thesis using child[OF that(1)] by (simp del: up.simps)
  qed
  have dcs: "distinct ?cs"
    using assms(1) by (simp add: linked_deref(2)[OF assms(1) Suc.prems(2)] linked_def)
  have sub: "distinct L' \<and> set L' = (\<Union>c \<in> set ?cs. below m c)"
  proof (rule visit_all_distinct[OF dcs _ _ L'])
    fix c a assume "c \<in> set ?cs" "traverse_nodes n m c = Some a"
    then show "distinct a \<and> set a = below m c"
      using Suc.IH[of c a "Suc e"] child[of c] by simp
  next
    fix c c' assume c: "c \<in> set ?cs" and c': "c' \<in> set ?cs" and ne: "c \<noteq> c'"
    show "below m c \<inter> below m c' = {}"
    proof (rule ccontr)
      assume "below m c \<inter> below m c' \<noteq> {}"
      then obtain u d d' where "up m d u = Some c" "up m d' u = Some c'"
        by (auto simp: below_def)
      then have "up m (d + Suc e) u = Some r" "up m (d' + Suc e) u = Some r"
        using deeper[OF c] deeper[OF c'] by simp_all
      then have "d + Suc e = d' + Suc e" by (rule up_depth_unique[OF assms(2)])
      with \<open>up m d u = Some c\<close> \<open>up m d' u = Some c'\<close> ne show False by simp
    qed
  qed
  have "v \<notin> set L'"
  proof
    assume "v \<in> set L'"
    with sub obtain c d where c: "c \<in> set ?cs" and "up m d v = Some c"
      by (auto simp: below_def)
    then have "up m (d + Suc e) v = Some r" using deeper[OF c] by simp
    from up_depth_unique[OF assms(2) this Suc.prems(3)] show False by simp
  qed
  with sub show ?case
    by (simp add: L below_step[OF assms(1) Suc.prems(2)])
qed

text \<open>
  When every key leads to the root, the traversal from the root lists every key of the
  store exactly once.
\<close>

lemma traverse_nodes_all:
  assumes "linked m" and "is_root m r"
    and all: "\<And>k. k \<in> set (map fst m) \<Longrightarrow> \<exists>d. up m d k = Some r"
    and L: "traverse_nodes n m r = Some L"
  shows "distinct L \<and> set L = set (map fst m)"
proof -
  have "below m r = set (map fst m)"
    using all by (auto simp: below_def)
  moreover have "distinct L \<and> set L = below m r"
    by (rule traverse_nodes_below[OF assms(1,2) L is_root_key[OF assms(2)], of 0]) simp
  ultimately show ?thesis by simp
qed

subsection \<open>Node lists whose parent chains lead to the root\<close>

lemma map_of_by_find:
  "map_of (map (\<lambda>n. (f n, g n)) ns) c = map_option g (find (\<lambda>n. f n = c) ns)"
  by (induction ns) auto

lemma map_of_skeleton:
  assumes "distinct (map node_id ns)"
  shows "map_option parent_id (map_of (skeleton ns) c)
         = map_option parent_id (find (\<lambda>n. node_id n = c) ns)"
proof -
  have "map_of (create_tree_nodes ns) c = map_option new_TreeNode (find (\<lambda>n. node_id n = c) ns)"
    unfolding create_tree_nodes_distinct_ids[OF assms] by (rule map_of_by_find)
  then show ?thesis
    by (simp add: skeleton_def map_of_link option.map_comp comp_def new_TreeNode_def)
qed

lemma up_skeleton:
  assumes "distinct (map node_id ns)"
  shows "up (skeleton ns) d c = ancestor ns d c"
proof (induction d arbitrary: c)
  case 0
  then show ?case by simp
next
  case (Suc d)
  show ?case
    using map_of_skeleton[OF assms, of c]
    by (cases "map_of (skeleton ns) c"; cases "find (\<lambda>n. node_id n = c) ns")
       (simp_all add: Suc.IH split: option.splits)
qed

lemma keys_skeleton:
  "distinct (map node_id ns) \<Longrightarrow> map fst (skeleton ns) = map node_id ns"
  by (simp add: map_fst_skeleton create_tree_nodes_distinct_ids comp_def)

lemma last_root_exists:
  "k \<in> set ks \<Longrightarrow> parent_id (deref m k) = None \<Longrightarrow> \<exists>r. last_root m rt ks = Some r"
proof (induction ks arbitrary: rt)
  case Nil
  then show ?case by simp
next
  case (Cons a ks)
  show ?case
  proof (cases "k \<in> set ks")
    case True
    from Cons.IH[OF True Cons.prems(2)] show ?thesis by simp
  next
    case False
    with Cons.prems have "k = a" by simp
    have "last_root m (Some q) ks \<noteq> None" for q
      by (induction ks arbitrary: q) simp_all
    then show ?thesis
      using Cons.prems(2) \<open>k = a\<close> by auto
  qed
qed

lemma find_distinct:
  "distinct (map f ns) \<Longrightarrow> a \<in> set ns \<Longrightarrow> find (\<lambda>n. f n = f a) ns = Some a"
  by (induction ns) (auto simp: image_iff)

lemma filter_distinct:
  "distinct (map f ns) \<Longrightarrow> a \<in> set ns \<Longrightarrow> filter (\<lambda>n. f n = f a) ns = [a]"
proof (induction ns)
  case Nil
  then show ?case by simp
next
  case (Cons b ns)
  show ?case
  proof (cases "b = a")
    case True
    then have "\<forall>n \<in> set ns. f n \<noteq> f a" using Cons.prems(1) by (auto simp: image_iff)
    then have "filter (\<lambda>n. f n = f a) ns = []" by (simp add: filter_empty_conv)
    with True show ?thesis by simp
  next
    case False
    then have "a \<in> set ns" using Cons.prems(2) by simp
    moreover have "f b \<noteq> f a" using Cons.prems(1) \<open>a \<in> set ns\<close> by (auto simp: image_iff)
    ultimately show ?thesis using Cons by simp
  qed
qed

lemma root_of_unique:
  assumes d: "distinct (map node_id ns)" and r: "rn \<in> set ns" "parent_id rn = None"
    and reach: "\<forall>n \<in> set ns. \<exists>d. ancestor ns d (node_id n) = Some (node_id rn)"
  shows "root_of ns = Some (node_id rn)"
proof -
  have f: "find (\<lambda>n. node_id n = node_id rn) ns = Some rn"
    by (rule find_distinct[OF d r(1)])
  then have "map_option parent_id (map_of (skeleton ns) (node_id rn)) = Some None"
    using map_of_skeleton[OF d, of "node_id rn"] r(2) by simp
  then have p: "parent_id (deref (skeleton ns) (node_id rn)) = None"
    by (cases "map_of (skeleton ns) (node_id rn)") (simp_all add: deref_def)
  have "parent_id (deref (create_tree_nodes ns) (node_id rn)) = None"
    using p by (simp add: skeleton_def parent_id_deref_link)
  moreover have "node_id rn \<in> set (map fst (create_tree_nodes ns))"
    using r(1) by (simp add: create_tree_nodes_distinct_ids[OF d] comp_def)
  ultimately obtain r' where r': "root_of ns = Some r'"
    unfolding root_of_def using last_root_exists by blast
  have root': "is_root (skeleton ns) r'" by (rule is_root_skeleton[OF r'])
  have "r' \<in> set (map node_id ns)"
    using root_of_key(1)[OF r'] keys_skeleton[OF d] by simp
  then obtain d' where "ancestor ns d' r' = Some (node_id rn)"
    using reach by auto
  then have u: "up (skeleton ns) d' r' = Some (node_id rn)"
    by (simp add: up_skeleton[OF d])
  have "d' = 0"
    using u up_from_root[OF root'] by (cases d') simp_all
  with u have "r' = node_id rn" by simp
  with r' show ?thesis by simp
qed

subsection \<open>The number of edges\<close>

text \<open>
  Claim C1 as it is stated does not hold.  In the list of \<open>scenario_A\<close> and
  \<open>self_parent\<close> the ids are distinct, one node has no parent and the \<open>parent_id\<close>
  of the other resolves within the list (to the node itself).  The traversal starts at
  the root and follows \<open>children\<close>, so it never reaches \<open>self_parent\<close>: with any
  positive depth count the edge list is empty, while the node count minus one is 1.
\<close>

theorem edge_count_needs_acyclic:
  "distinct (map node_id [scenario_A, self_parent])
   \<and> filter (\<lambda>n. parent_id n = None) [scenario_A, self_parent] = [scenario_A]
   \<and> list_all (\<lambda>n. parent_id n = None
                    \<or> (\<exists>p \<in> set [scenario_A, self_parent]. parent_id n = Some (node_id p)))
        [scenario_A, self_parent]
   \<and> (\<forall>fuel bestPath.
         edges (Suc fuel) (layoutTree [scenario_A, self_parent] bestPath) bestPath = Some [])
   \<and> length [scenario_A, self_parent] - 1 = 1"
proof -
  have rt: "root_of [scenario_A, self_parent] = Some ''n0''"
    by code_simp
  have ch: "children (deref (skeleton [scenario_A, self_parent]) ''n0'') = []"
    by code_simp
  have "edges (Suc fuel) (layoutTree [scenario_A, self_parent] bestPath) bestPath = Some []"
    for fuel bestPath
    by (simp add: edges_layoutTree rt traverse_edges_Suc ch visit_all_Nil)
  then show ?thesis
    by (simp add: scenario_A_def self_parent_def)
qed

text \<open>
  Claim C1, amended.  Take a node list with pairwise distinct ids and a node \<open>r\<close> of
  it without parent such that every node of the list leads to \<open>r\<close> by following
  \<open>parent_id\<close> (so every other \<open>parent_id\<close> resolves within the list and the links
  have no cycle).  Then, with a depth count above the number of nodes, the edge
  traversal returns, the number of edges is the number of nodes minus one, and \<open>r\<close> is
  the one node of the list that is the target of no edge.
\<close>

theorem tree_edge_count:
  assumes "distinct (map node_id nodes)"
    and "r \<in> set nodes" and "parent_id r = None"
    and "\<forall>n \<in> set nodes. \<exists>d. ancestor nodes d (node_id n) = Some (node_id r)"
    and "length nodes < fuel"
  shows "\<exists>es. edges fuel (layoutTree nodes bestPath) bestPath = Some es
           \<and> length es = length nodes - 1
           \<and> filter (\<lambda>n. node_id n \<notin> (fst \<circ> snd) ` set es) nodes = [r]"
proof -
  let ?m = "skeleton nodes"
  let ?r = "node_id r"
  have rt: "root_of nodes = Some ?r"
    by (rule root_of_unique[OF assms(1-4)])
  have root: "is_root ?m ?r" by (rule is_root_skeleton[OF rt])
  have keys: "map fst ?m = map node_id nodes" by (rule keys_skeleton[OF assms(1)])
  have "length ?m < fuel"
    using length_skeleton[of nodes] assms(5) by simp
  from traverse_nodes_total[OF linked_skeleton root this]
  obtain L where L: "traverse_nodes fuel ?m ?r = Some L" by blast
  have "\<exists>d. up ?m d k = Some ?r" if "k \<in> set (map fst ?m)" for k
    using that assms(4) by (auto simp: keys up_skeleton[OF assms(1)])
  from traverse_nodes_all[OF linked_skeleton root this L]
  have dL: "distinct L" and sL: "set L = set (map node_id nodes)"
    by (simp_all add: keys)
  from L obtain es where es: "traverse_edges fuel bestPath ?m ?r = Some es"
    and Les: "L = ?r # map (fst \<circ> snd) es"
    using traverse_nodes_edges[of fuel ?m ?r bestPath] by (cases "traverse_edges fuel bestPath ?m ?r") auto
  have "length L = length nodes"
    using distinct_card[OF dL] distinct_card[OF assms(1)] sL by simp
  then have len: "length es = length nodes - 1"
    by (simp add: Les)
  have "?r \<notin> set (map (fst \<circ> snd) es)"
    and "insert ?r (set (map (fst \<circ> snd) es)) = set (map node_id nodes)"
    using dL sL unfolding Les by simp_all
  then have "set (map (fst \<circ> snd) es) = set (map node_id nodes) - {?r}"
    by blast
  then have tg: "(fst \<circ> snd) ` set es = set (map node_id nodes) - {?r}"
    by simp
  have "filter (\<lambda>n. node_id n \<notin> (fst \<circ> snd) ` set es) nodes
        = filter (\<lambda>n. node_id n = ?r) nodes"
    unfolding tg by (rule filter_cong) auto
  also have "\<dots> = [r]"
    by (rule filter_distinct[OF assms(1,2)])
  finally show ?thesis
    using es len by (simp add: edges_layoutTree rt)
qed

theorem tree_edge_count_witness:
  "distinct (map node_id [scenario_A, scenario_B])
   \<and> scenario_A \<in> set [scenario_A, scenario_B] \<and> parent_id scenario_A = None
   \<and> list_all (\<lambda>n. \<exists>d. ancestor [scenario_A, scenario_B] d (node_id n) = Some (node_id scenario_A))
        [scenario_A, scenario_B]
   \<and> length [scenario_A, scenario_B] < 3
   \<and> (\<exists>es. edges 3 (layoutTree [scenario_A, scenario_B] [''n0'', ''n1'']) [''n0'', ''n1''] = Some es
          \<and> length es = length [scenario_A, scenario_B] - 1
          \<and> filter (\<lambda>n. node_id n \<notin> (fst \<circ> snd) ` set es) [scenario_A, scenario_B] = [scenario_A])"
proof -
  have d: "distinct (map node_id [scenario_A, scenario_B])"
    by (simp add: scenario_A_def scenario_B_def)
  have r: "scenario_A \<in> set [scenario_A, scenario_B]" "parent_id scenario_A = None"
    by (simp_all add: scenario_A_def)
  have a0: "ancestor [scenario_A, scenario_B] 0 (node_id scenario_A) = Some (node_id scenario_A)"
    by simp
  have a1: "ancestor [scenario_A, scenario_B] (Suc 0) (node_id scenario_B) = Some (node_id scenario_A)"
    by (simp add: scenario_A_def scenario_B_def)
  have reach: "\<forall>n \<in> set [scenario_A, scenario_B].
      \<exists>d. ancestor [scenario_A, scenario_B] d (node_id n) = Some (node_id scenario_A)"
    using a0 a1 by (metis insert_iff list.set(2) empty_iff empty_set)
  have len: "length [scenario_A, scenario_B] < 3" by simp
  from tree_edge_count[OF d r reach len, of "[''n0'', ''n1'']"] d r reach len
  show ?thesis by (simp add: list_all_iff)
qed

subsection \<open>The order within a round\<close>

lemma insort_cmp_key:
  "(\<And>b. b \<in> set bs \<Longrightarrow> (cmp a b \<le> 0) = (f a \<le> f b)) \<Longrightarrow>
   insort_cmp cmp a bs = insort_key f a bs"
  by (induction bs) simp_all

lemma sort_cmp_key:
  "(\<And>a b. a \<in> set as \<Longrightarrow> b \<in> set as \<Longrightarrow> (cmp a b \<le> 0) = (f a \<le> f b)) \<Longrightarrow>
   sort_cmp cmp as = sort_key f as"
proof (induction as)
  case Nil
  then show ?case by (simp add: sort_cmp_def)
next
  case (Cons a as)
  have IH: "sort_cmp cmp as = sort_key f as"
    by (rule Cons.IH) (simp add: Cons.prems)
  have "sort_cmp cmp (a # as) = insort_cmp cmp a (sort_key f as)"
    using IH by (simp add: sort_cmp_def)
  also have "\<dots> = insort_key f a (sort_key f as)"
    by (rule insort_cmp_key) (simp add: Cons.prems)
  finally show ?case by (simp add: sort_key_def)
qed

lemma insort_key_map: "insort_key f (h a) (map h bs) = map h (insort_key (\<lambda>u. f (h u)) a bs)"
  by (induction bs) simp_all

lemma sort_key_map: "sort_key f (map h as) = map h (sort_key (\<lambda>u. f (h u)) as)"
  by (induction as) (simp_all add: sort_key_def insort_key_map)

lemma compare_nodes_spec_sort_key:
  "(compare_nodes bp m a b \<le> 0) =
   (spec_sort_key bp (node_id (deref m a)) (communication_tokens (deref m a))
      \<le> spec_sort_key bp (node_id (deref m b)) (communication_tokens (deref m b)))"
  by (simp add: compare_nodes_def spec_sort_key_def bestPathSet_has_def Let_def)

lemma sort_cmp_compare_nodes:
  "sort_cmp (compare_nodes bp m) ks =
   sort_key (\<lambda>k. spec_sort_key bp (node_id (deref m k)) (communication_tokens (deref m k))) ks"
  by (rule sort_cmp_key) (rule compare_nodes_spec_sort_key)

lemma compare_nodes_erase_xy: "compare_nodes bp (erase_xy m) = compare_nodes bp m"
  by (intro ext) (simp add: compare_nodes_def deref_erase_xy)

subsection \<open>The round groups\<close>

lemma map_of_add_to_group:
  "map_of (add_to_group m g k) r =
   (if r = round_index (deref m k)
    then Some ((case map_of g r of None \<Rightarrow> [] | Some ks \<Rightarrow> ks) @ [k])
    else map_of g r)"
  by (cases "map_of g (round_index (deref m k))")
     (auto simp: add_to_group_def Let_def map_of_map_entry update_conv')

lemma distinct_add_to_group:
  "distinct (map fst g) \<Longrightarrow> distinct (map fst (add_to_group m g k))"
  by (simp add: add_to_group_def Let_def distinct_map_entry distinct_update)

lemma group_by_round_snoc:
  "foldl (add_to_group m) g (ks @ [k]) = add_to_group m (foldl (add_to_group m) g ks) k"
  by simp

lemma map_of_groups:
  "map_of (foldl (add_to_group m) [] ks) r =
   (if round_keys m ks r = [] then None else Some (round_keys m ks r))"
proof (induction ks rule: rev_induct)
  case Nil
  then show ?case by (simp add: round_keys_def)
next
  case (snoc k ks)
  show ?case
    unfolding group_by_round_snoc map_of_add_to_group snoc.IH
    by (simp add: round_keys_def)
qed

lemma distinct_groups: "distinct (map fst (foldl (add_to_group m) [] ks))"
  by (induction ks rule: rev_induct) (simp_all add: distinct_add_to_group)

lemma group_by_round_entries:
  "(r, ks) \<in> set (group_by_round m) \<longleftrightarrow>
   ks = round_keys m (map fst m) r \<and> ks \<noteq> []"
proof -
  have "(r, ks) \<in> set (group_by_round m) \<longleftrightarrow> map_of (group_by_round m) r = Some ks"
    using distinct_groups[of m "map fst m"] by (simp add: group_by_round_def)
  then show ?thesis
    by (auto simp: group_by_round_def map_of_groups)
qed

subsection \<open>Placing and shifting a row\<close>

lemma place_row_Cons:
  "place_row r i (k # ks) m = place_row r (Suc i) ks (AList.map_entry k (placed r i) m)"
  by (simp add: placed_def[abs_def])

lemma place_row_other: "k \<notin> set ks \<Longrightarrow> map_of (place_row r i ks m) k = map_of m k"
proof (induction ks arbitrary: i m)
  case Nil
  then show ?case by simp
next
  case (Cons a ks)
  then show ?case
    by (simp add: place_row_Cons map_of_map_entry del: place_row.simps)
qed

lemma place_row_nth:
  "distinct ks \<Longrightarrow> j < length ks \<Longrightarrow> map_of m (ks ! j) = Some t \<Longrightarrow>
   map_of (place_row r i ks m) (ks ! j) = Some (placed r (i + j) t)"
proof (induction ks arbitrary: i j m)
  case Nil
  then show ?case by simp
next
  case (Cons a ks)
  show ?case
  proof (cases j)
    case 0
    have "map_of (place_row r (Suc i) ks (AList.map_entry a (placed r i) m)) a
          = map_of (AList.map_entry a (placed r i) m) a"
      using Cons.prems(1) by (intro place_row_other) simp
    also have "\<dots> = Some (placed r i t)"
      using Cons.prems(3) 0 by (simp add: map_of_map_entry)
    finally show ?thesis
      using 0 by (simp add: place_row_Cons del: place_row.simps)
  next
    case (Suc j')
    have ne: "ks ! j' \<noteq> a" using Cons.prems(1,2) Suc by auto
    have "map_of (AList.map_entry a (placed r i) m) (ks ! j') = Some t"
      using Cons.prems(3) Suc ne by (simp add: map_of_map_entry)
    from Cons.IH[OF _ _ this, of "Suc i"] Cons.prems(1,2) Suc
    show ?thesis
      by (simp add: place_row_Cons del: place_row.simps)
  qed
qed

lemma shift_row_other: "k \<notin> set ks \<Longrightarrow> map_of (shift_row off ks m) k = map_of m k"
  by (induction ks arbitrary: m) (simp_all add: map_of_map_entry)

lemma shift_row_in:
  "distinct ks \<Longrightarrow> k \<in> set ks \<Longrightarrow> map_of m k = Some t \<Longrightarrow>
   map_of (shift_row off ks m) k = Some (t\<lparr>x := x t + off\<rparr>)"
proof (induction ks arbitrary: m)
  case Nil
  then show ?case by simp
next
  case (Cons a ks)
  show ?case
  proof (cases "k = a")
    case True
    have "map_of (shift_row off ks (AList.map_entry a (\<lambda>node. node\<lparr>x := x node + off\<rparr>) m)) a
          = map_of (AList.map_entry a (\<lambda>node. node\<lparr>x := x node + off\<rparr>) m) a"
      using Cons.prems(1) by (intro shift_row_other) simp
    then show ?thesis
      using True Cons.prems(3) by (simp add: map_of_map_entry)
  next
    case False
    have "map_of (AList.map_entry a (\<lambda>node. node\<lparr>x := x node + off\<rparr>) m) k = Some t"
      using False Cons.prems(3) by (simp add: map_of_map_entry)
    from Cons.IH[OF _ _ this] Cons.prems(1,2) False show ?thesis by simp
  qed
qed

subsection \<open>The two loops over the round groups\<close>

lemma compare_nodes_place_row:
  "compare_nodes bp (place_row r i ks m) = compare_nodes bp m"
  using compare_nodes_erase_xy[of bp "place_row r i ks m"] compare_nodes_erase_xy[of bp m]
  by (simp add: erase_xy_place_row)

lemma set_sort_cmp: "set (sort_cmp (compare_nodes bp m) ks) = set ks"
  by (simp add: sort_cmp_compare_nodes)

lemma distinct_sort_cmp: "distinct (sort_cmp (compare_nodes bp m) ks) = distinct ks"
  by (simp add: sort_cmp_compare_nodes)

lemma length_sort_cmp: "length (sort_cmp (compare_nodes bp m) ks) = length ks"
  by (simp add: sort_cmp_compare_nodes)

lemma row_width_sort_cmp: "row_width (sort_cmp (compare_nodes bp m) ks) = row_width ks"
  by (simp add: row_width_def length_sort_cmp)

lemma calculate_positions_Cons:
  "calculate_positions bp (g # gs) mw m =
   (let sorted = sort_cmp (compare_nodes bp m) (snd g);
        rest = calculate_positions bp gs (max mw (row_width (snd g)))
                 (place_row (fst g) 0 sorted m)
    in ((fst g, sorted) # fst rest, fst (snd rest), snd (snd rest)))"
  by (cases g) (simp add: Let_def split_beta row_width_sort_cmp)

lemma calculate_positions_groups:
  "fst (calculate_positions bp gs mw m) = sorted_groups bp m gs"
proof (induction gs arbitrary: mw m)
  case Nil
  then show ?case by (simp add: sorted_groups_def)
next
  case (Cons g gs)
  show ?case
    unfolding calculate_positions_Cons
    by (simp add: Let_def Cons.IH sorted_groups_def compare_nodes_place_row)
qed

lemma calculate_positions_maxWidth:
  "fst (snd (calculate_positions bp gs mw m)) = foldl max mw (map (\<lambda>g. row_width (snd g)) gs)"
proof (induction gs arbitrary: mw m)
  case Nil
  then show ?case by simp
next
  case (Cons g gs)
  show ?case
    unfolding calculate_positions_Cons
    by (simp add: Let_def Cons.IH)
qed

lemma calculate_positions_other:
  "k \<notin> set (concat (map snd gs)) \<Longrightarrow>
   map_of (snd (snd (calculate_positions bp gs mw m))) k = map_of m k"
proof (induction gs arbitrary: mw m)
  case Nil
  then show ?case by simp
next
  case (Cons g gs)
  have "k \<notin> set (sort_cmp (compare_nodes bp m) (snd g))"
    using Cons.prems by (simp add: set_sort_cmp)
  then show ?case
    unfolding calculate_positions_Cons
    using Cons.prems by (simp add: Let_def Cons.IH place_row_other)
qed

lemma calculate_positions_placed:
  "distinct (concat (map snd gs)) \<Longrightarrow> g \<in> set gs \<Longrightarrow> j < length (snd g) \<Longrightarrow>
   map_of m (sort_cmp (compare_nodes bp m) (snd g) ! j) = Some t \<Longrightarrow>
   map_of (snd (snd (calculate_positions bp gs mw m))) (sort_cmp (compare_nodes bp m) (snd g) ! j)
     = Some (placed (fst g) j t)"
proof (induction gs arbitrary: mw m)
  case Nil
  then show ?case by simp
next
  case (Cons h gs)
  let ?k = "sort_cmp (compare_nodes bp m) (snd g) ! j"
  let ?sorted = "sort_cmp (compare_nodes bp m) (snd h)"
  let ?m1 = "place_row (fst h) 0 ?sorted m"
  have kin: "?k \<in> set (snd g)"
    using Cons.prems(3) nth_mem[of j "sort_cmp (compare_nodes bp m) (snd g)"]
    by (simp add: length_sort_cmp set_sort_cmp)
  show ?case
  proof (cases "g = h")
    case True
    have "?k \<notin> set (concat (map snd gs))"
      using Cons.prems(1) kin True by auto
    then have "map_of (snd (snd (calculate_positions bp gs (max mw (row_width (snd h))) ?m1))) ?k
               = map_of ?m1 ?k"
      by (rule calculate_positions_other)
    also have "\<dots> = Some (placed (fst h) (0 + j) t)"
    proof -
      have "distinct (snd g)" using Cons.prems(1) True by simp
      then have "distinct (sort_cmp (compare_nodes bp m) (snd g))"
        by (simp add: distinct_sort_cmp)
      moreover have "j < length (sort_cmp (compare_nodes bp m) (snd g))"
        using Cons.prems(3) by (simp add: length_sort_cmp)
      ultimately have "map_of (place_row (fst g) 0 (sort_cmp (compare_nodes bp m) (snd g)) m) ?k
            = Some (placed (fst g) (0 + j) t)"
        using Cons.prems(4) by (rule place_row_nth)
      then show ?thesis using True by simp
    qed
    finally show ?thesis
      unfolding calculate_positions_Cons using True by (simp add: Let_def)
  next
    case False
    then have gin: "g \<in> set gs" using Cons.prems(2) by simp
    then have "set (snd g) \<subseteq> set (concat (map snd gs))" by auto
    then have "?k \<notin> set ?sorted"
      using Cons.prems(1) kin by (auto simp: set_sort_cmp)
    then have m1: "map_of ?m1 ?k = Some t"
      using Cons.prems(4) by (simp add: place_row_other)
    have d: "distinct (concat (map snd gs))" using Cons.prems(1) by simp
    have "map_of (snd (snd (calculate_positions bp gs (max mw (row_width (snd h))) ?m1)))
            (sort_cmp (compare_nodes bp ?m1) (snd g) ! j) = Some (placed (fst g) j t)"
      by (rule Cons.IH[OF d gin Cons.prems(3)]) (simp add: compare_nodes_place_row m1)
    then show ?thesis
      unfolding calculate_positions_Cons by (simp add: Let_def compare_nodes_place_row)
  qed
qed

lemma center_rounds_other:
  "k \<notin> set (concat (map snd gs)) \<Longrightarrow> map_of (center_rounds mw gs m) k = map_of m k"
proof (induction gs arbitrary: m)
  case Nil
  then show ?case by simp
next
  case (Cons g gs)
  then show ?case by (cases g) (simp add: shift_row_other)
qed

lemma center_rounds_shifted:
  "distinct (concat (map snd gs)) \<Longrightarrow> g \<in> set gs \<Longrightarrow> k \<in> set (snd g) \<Longrightarrow>
   map_of m k = Some t \<Longrightarrow>
   map_of (center_rounds mw gs m) k = Some (t\<lparr>x := x t + (mw - row_width (snd g)) / 2\<rparr>)"
proof (induction gs arbitrary: m)
  case Nil
  then show ?case by simp
next
  case (Cons h gs)
  obtain r ks where h: "h = (r, ks)" by (cases h)
  show ?case
  proof (cases "g = h")
    case True
    have "k \<notin> set (concat (map snd gs))"
      using Cons.prems(1,3) True by auto
    then have "map_of (center_rounds mw gs (shift_row ((mw - row_width ks) / 2) ks m)) k
               = map_of (shift_row ((mw - row_width ks) / 2) ks m) k"
      by (rule center_rounds_other)
    also have "\<dots> = Some (t\<lparr>x := x t + (mw - row_width ks) / 2\<rparr>)"
      by (rule shift_row_in) (use Cons.prems True h in auto)
    finally show ?thesis using True h by simp
  next
    case False
    then have gin: "g \<in> set gs" using Cons.prems(2) by simp
    then have "set (snd g) \<subseteq> set (concat (map snd gs))" by auto
    then have "k \<notin> set ks"
      using Cons.prems(1,3) h by auto
    then have "map_of (shift_row ((mw - row_width ks) / 2) ks m) k = Some t"
      using Cons.prems(4) by (simp add: shift_row_other)
    from Cons.IH[OF _ gin Cons.prems(3) this] Cons.prems(1)
    show ?thesis by (simp add: h)
  qed
qed

subsection \<open>The coordinates of a node\<close>

lemma distinct_concat_groups:
  assumes "distinct ks"
  shows "distinct (map fst gs) \<Longrightarrow> (\<And>g. g \<in> set gs \<Longrightarrow> snd g = round_keys m ks (fst g)) \<Longrightarrow>
         distinct (concat (map snd gs))"
proof (induction gs)
  case Nil
  then show ?case by simp
next
  case (Cons g gs)
  have dg: "distinct (snd g)"
    using Cons.prems(2)[of g] assms by (simp add: round_keys_def)
  have rest: "distinct (concat (map snd gs))"
    using Cons.IH Cons.prems by simp
  have "set (snd g) \<inter> set (snd h) = {}" if "h \<in> set gs" for h
  proof -
    have "fst h \<noteq> fst g" using that Cons.prems(1) by (auto simp: image_iff)
    then show ?thesis
      using Cons.prems(2)[of g] Cons.prems(2)[of h] that by (auto simp: round_keys_def)
  qed
  then have "set (snd g) \<inter> set (concat (map snd gs)) = {}" by auto
  with dg rest show ?case by simp
qed

lemma distinct_concat_group_by_round:
  assumes "distinct (map fst m)"
  shows "distinct (concat (map snd (group_by_round m)))"
proof (rule distinct_concat_groups[OF assms])
  show "distinct (map fst (group_by_round m))"
    by (simp add: group_by_round_def distinct_groups)
  show "\<And>g. g \<in> set (group_by_round m) \<Longrightarrow> snd g = round_keys m (map fst m) (fst g)"
    using group_by_round_entries[of _ _ m] by (metis prod.collapse)
qed

lemma concat_sorted_groups:
  "set (concat (map snd (sorted_groups bp m gs))) = set (concat (map snd gs))"
  "distinct (concat (map snd (sorted_groups bp m gs))) = distinct (concat (map snd gs))"
  by (induction gs) (auto simp: sorted_groups_def set_sort_cmp distinct_sort_cmp)

lemma foldl_max_Max: "foldl max (a::rat) ws = Max (insert a (set ws))"
proof -
  have "foldl max a ws = fold max ws a"
    by (simp add: foldl_conv_fold max.commute)
  also have "\<dots> = Max (set (a # ws))"
    by (rule Max.set_eq_fold[symmetric])
  finally show ?thesis by simp
qed

lemma treeNodes_layoutTree:
  assumes "root_of ns = Some r"
  shows "treeNodes (layoutTree ns bp) =
         center_rounds (foldl max 0 (map (\<lambda>g. row_width (snd g)) (group_by_round (skeleton ns))))
           (sorted_groups bp (skeleton ns) (group_by_round (skeleton ns)))
           (snd (snd (calculate_positions bp (group_by_round (skeleton ns)) 0 (skeleton ns))))"
proof -
  have "ns \<noteq> []" using assms root_of_Nil by auto
  then show ?thesis
    using calculate_positions_groups[of bp "group_by_round (skeleton ns)" 0 "skeleton ns"]
      calculate_positions_maxWidth[of bp "group_by_round (skeleton ns)" 0 "skeleton ns"]
    by (simp add: layoutTree_def build_create assms Let_def split_beta)
qed

lemma center_placed:
  assumes d: "distinct (map fst m)" and g: "g \<in> set (group_by_round m)"
    and j: "j < length (snd g)"
    and t: "map_of m (sort_cmp (compare_nodes bp m) (snd g) ! j) = Some t"
  shows "map_of (center_rounds mw (sorted_groups bp m (group_by_round m))
                  (snd (snd (calculate_positions bp (group_by_round m) mw0 m))))
           (sort_cmp (compare_nodes bp m) (snd g) ! j)
         = Some ((placed (fst g) j t)\<lparr>x := x (placed (fst g) j t) + (mw - row_width (snd g)) / 2\<rparr>)"
proof -
  let ?gs = "group_by_round m"
  let ?k = "sort_cmp (compare_nodes bp m) (snd g) ! j"
  let ?g' = "(fst g, sort_cmp (compare_nodes bp m) (snd g))"
  have dc: "distinct (concat (map snd ?gs))"
    by (rule distinct_concat_group_by_round[OF d])
  have p: "map_of (snd (snd (calculate_positions bp ?gs mw0 m))) ?k = Some (placed (fst g) j t)"
    by (rule calculate_positions_placed[OF dc g j t])
  have dc': "distinct (concat (map snd (sorted_groups bp m ?gs)))"
    using dc by (simp add: concat_sorted_groups)
  have g': "?g' \<in> set (sorted_groups bp m ?gs)"
    using g by (auto simp: sorted_groups_def)
  have k: "?k \<in> set (snd ?g')"
    using j by (simp add: length_sort_cmp)
  from center_rounds_shifted[OF dc' g' k p, of mw]
  show ?thesis by (simp add: row_width_sort_cmp)
qed

lemma sort_key_cong_set:
  "(\<And>a. a \<in> set as \<Longrightarrow> f a = g a) \<Longrightarrow> sort_key f as = sort_key g as"
proof (induction as)
  case Nil
  then show ?case by simp
next
  case (Cons a as)
  have IH: "sort_key f as = sort_key g as" by (rule Cons.IH) (simp add: Cons.prems)
  have ins: "(\<And>b. b \<in> set bs \<Longrightarrow> f b = g b) \<Longrightarrow> f a = g a \<Longrightarrow>
             insort_key f a bs = insort_key g a bs" for bs
    by (induction bs) simp_all
  have "insort_key f a (sort_key g as) = insort_key g a (sort_key g as)"
    by (rule ins) (simp_all add: Cons.prems)
  with IH show ?case by (simp add: sort_key_def)
qed

text \<open>The objects of the store carry the fields of the nodes they were copied from.\<close>

lemma map_of_skeleton_node:
  assumes "distinct (map node_id ns)" and "n \<in> set ns"
  shows "\<exists>t. map_of (skeleton ns) (node_id n) = Some t \<and> node_id t = node_id n
           \<and> round_index t = round_index n
           \<and> communication_tokens t = communication_tokens n"
proof -
  have "map_of (create_tree_nodes ns) (node_id n) = Some (new_TreeNode n)"
    unfolding create_tree_nodes_distinct_ids[OF assms(1)]
    by (simp add: map_of_by_find find_distinct[OF assms])
  then show ?thesis
    by (simp add: skeleton_def map_of_link new_TreeNode_def)
qed

lemma deref_skeleton_node:
  assumes "distinct (map node_id ns)" and "n \<in> set ns"
  shows "node_id (deref (skeleton ns) (node_id n)) = node_id n"
    and "round_index (deref (skeleton ns) (node_id n)) = round_index n"
    and "communication_tokens (deref (skeleton ns) (node_id n)) = communication_tokens n"
  using map_of_skeleton_node[OF assms] by (auto simp: deref_def)

lemma round_keys_nodes:
  assumes "distinct (map node_id ns)"
  shows "round_keys (skeleton ns) (map fst (skeleton ns)) r = map node_id (round_nodes ns r)"
proof -
  have "filter ((\<lambda>k. round_index (deref (skeleton ns) k) = r) \<circ> node_id) ns
        = filter (\<lambda>n. round_index n = r) ns"
    by (rule filter_cong) (simp_all add: deref_skeleton_node(2)[OF assms])
  then show ?thesis
    by (simp add: round_keys_def keys_skeleton[OF assms] filter_map round_nodes_def)
qed

lemma sorted_round_keys:
  assumes "distinct (map node_id ns)"
  shows "sort_cmp (compare_nodes bp (skeleton ns)) (map node_id (round_nodes ns r))
         = map node_id (spec_round_order ns bp r)"
proof -
  have "sort_key (\<lambda>u. spec_sort_key bp (node_id (deref (skeleton ns) (node_id u)))
                       (communication_tokens (deref (skeleton ns) (node_id u))))
          (round_nodes ns r)
        = sort_key (\<lambda>n. spec_sort_key bp (node_id n) (communication_tokens n)) (round_nodes ns r)"
    by (rule sort_key_cong_set)
       (simp add: round_nodes_def deref_skeleton_node[OF assms])
  then show ?thesis
    by (simp add: sort_cmp_compare_nodes sort_key_map spec_round_order_def)
qed

lemma row_width_length: "row_width ks = width_of_row (length ks)"
  by (simp add: row_width_def width_of_row_def)

lemma round_nodes_empty: "round_nodes ns r = [] \<longleftrightarrow> r \<notin> round_index ` set ns"
  by (auto simp: round_nodes_def filter_empty_conv)

lemma set_group_by_round:
  assumes "distinct (map node_id ns)"
  shows "set (group_by_round (skeleton ns))
         = (\<lambda>r. (r, map node_id (round_nodes ns r))) ` round_index ` set ns"
proof (intro set_eqI iffI)
  fix g assume "g \<in> set (group_by_round (skeleton ns))"
  then have "(fst g, snd g) \<in> set (group_by_round (skeleton ns))" by simp
  then have e: "snd g = round_keys (skeleton ns) (map fst (skeleton ns)) (fst g)"
    and ne: "snd g \<noteq> []"
    unfolding group_by_round_entries by blast+
  have g: "snd g = map node_id (round_nodes ns (fst g))"
    using e by (simp add: round_keys_nodes[OF assms])
  have "round_nodes ns (fst g) \<noteq> []"
    using ne unfolding g by simp
  then have "fst g \<in> round_index ` set ns"
    using round_nodes_empty[of ns "fst g"] by simp
  moreover have "g = (fst g, map node_id (round_nodes ns (fst g)))"
    using g by (metis prod.collapse)
  ultimately show "g \<in> (\<lambda>r. (r, map node_id (round_nodes ns r))) ` round_index ` set ns"
    by (rule rev_image_eqI)
next
  fix g assume "g \<in> (\<lambda>r. (r, map node_id (round_nodes ns r))) ` round_index ` set ns"
  then obtain r where r: "r \<in> round_index ` set ns"
    and g: "g = (r, map node_id (round_nodes ns r))" by auto
  have "map node_id (round_nodes ns r) \<noteq> []"
    using r round_nodes_empty[of ns r] by simp
  then show "g \<in> set (group_by_round (skeleton ns))"
    unfolding g group_by_round_entries by (simp add: round_keys_nodes[OF assms])
qed

lemma width_of_row_pos: "0 < n \<Longrightarrow> 0 < width_of_row n"
proof -
  assume "0 < n"
  then have "(1::rat) \<le> of_nat n" by simp
  then show ?thesis
    by (simp add: width_of_row_def NODE_WIDTH_def NODE_SPACING_def add_pos_nonneg)
qed

lemma maxWidth_widest:
  assumes "distinct (map node_id ns)" and "ns \<noteq> []"
  shows "foldl max 0 (map (\<lambda>g. row_width (snd g)) (group_by_round (skeleton ns))) = spec_widest_row ns"
proof -
  let ?W = "(\<lambda>r. width_of_row (length (round_nodes ns r))) ` round_index ` set ns"
  have W: "set (map (\<lambda>g. row_width (snd g)) (group_by_round (skeleton ns))) = ?W"
    by (simp add: set_group_by_round[OF assms(1)] image_image row_width_length)
  have fin: "finite ?W" by simp
  have ne: "?W \<noteq> {}" using assms(2) by simp
  have "0 < w" if "w \<in> ?W" for w
  proof -
    from that obtain r where r: "r \<in> round_index ` set ns"
      and w: "w = width_of_row (length (round_nodes ns r))" by auto
    have "round_nodes ns r \<noteq> []" using r round_nodes_empty[of ns r] by simp
    then show ?thesis unfolding w by (intro width_of_row_pos) simp
  qed
  then have "0 \<le> Max ?W"
    using fin ne by (meson Max_in less_imp_le)
  then have "Max (insert 0 ?W) = Max ?W"
    using fin ne by (simp add: max_def)
  then show ?thesis
    by (simp add: foldl_max_Max W spec_widest_row_def del: set_map)
qed

lemma placement_of_row:
  assumes "distinct (map node_id nodes)"
    and "\<exists>n \<in> set nodes. parent_id n = None"
    and "k < length (spec_round_order nodes bestPath r)"
  shows "x (deref (treeNodes (layoutTree nodes bestPath)) (node_id (spec_round_order nodes bestPath r ! k)))
           = of_nat k * (NODE_WIDTH + NODE_SPACING) + NODE_WIDTH / 2
             + (spec_widest_row nodes - width_of_row (length (spec_round_order nodes bestPath r))) / 2
       \<and> y (deref (treeNodes (layoutTree nodes bestPath)) (node_id (spec_round_order nodes bestPath r ! k)))
           = of_nat r * LEVEL_HEIGHT + NODE_HEIGHT / 2 + 40"
proof -
  let ?m = "skeleton nodes"
  let ?n = "spec_round_order nodes bestPath r ! k"
  let ?g = "(r, map node_id (round_nodes nodes r))"
  from assms(2) obtain rn where rn: "rn \<in> set nodes" "parent_id rn = None" by blast
  then have ne: "nodes \<noteq> []" by auto
  have "parent_id (deref (create_tree_nodes nodes) (node_id rn)) = None"
    using rn by (simp add: deref_def create_tree_nodes_distinct_ids[OF assms(1)]
        map_of_by_find find_distinct[OF assms(1) rn(1)] new_TreeNode_def)
  moreover have "node_id rn \<in> set (map fst (create_tree_nodes nodes))"
    using rn(1) by (simp add: create_tree_nodes_distinct_ids[OF assms(1)] comp_def)
  ultimately obtain rt where rt: "root_of nodes = Some rt"
    unfolding root_of_def using last_root_exists by blast
  have len: "length (spec_round_order nodes bestPath r) = length (round_nodes nodes r)"
    by (simp add: spec_round_order_def)
  have "round_nodes nodes r \<noteq> []" using assms(3) len by auto
  then have "r \<in> round_index ` set nodes" using round_nodes_empty[of nodes r] by simp
  then have g: "?g \<in> set (group_by_round ?m)"
    by (simp add: set_group_by_round[OF assms(1)])
  have j: "k < length (snd ?g)" using assms(3) len by simp
  have key: "sort_cmp (compare_nodes bestPath ?m) (snd ?g) ! k = node_id ?n"
    using assms(3) by (simp add: sorted_round_keys[OF assms(1)])
  have "?n \<in> set (spec_round_order nodes bestPath r)" using assms(3) by simp
  then have "?n \<in> set nodes" by (simp add: spec_round_order_def round_nodes_def)
  from map_of_skeleton_node[OF assms(1) this]
  obtain t where t: "map_of ?m (node_id ?n) = Some t" by blast
  have d: "distinct (map fst ?m)"
    using assms(1) by (simp add: keys_skeleton)
  have t': "map_of ?m (sort_cmp (compare_nodes bestPath ?m) (snd ?g) ! k) = Some t"
    using t key by simp
  have tn: "treeNodes (layoutTree nodes bestPath)
      = center_rounds (spec_widest_row nodes) (sorted_groups bestPath ?m (group_by_round ?m))
          (snd (snd (calculate_positions bestPath (group_by_round ?m) 0 ?m)))"
    by (simp add: treeNodes_layoutTree[OF rt] maxWidth_widest[OF assms(1) ne])
  have rw: "row_width (snd ?g) = width_of_row (length (round_nodes nodes r))"
    by (simp add: row_width_length)
  have "map_of (treeNodes (layoutTree nodes bestPath)) (node_id ?n)
        = Some ((placed r k t)\<lparr>x := x (placed r k t)
              + (spec_widest_row nodes - width_of_row (length (round_nodes nodes r))) / 2\<rparr>)"
    using center_placed[OF d g j t', of "spec_widest_row nodes" 0]
    unfolding tn key rw by simp
  then show ?thesis
    by (simp add: deref_def placed_def len)
qed

lemma spec_sort_key_le:
  "spec_sort_key bp i a \<le> spec_sort_key bp j b \<longleftrightarrow>
   (i \<in> set bp \<and> j \<notin> set bp) \<or> ((i \<in> set bp \<longleftrightarrow> j \<in> set bp) \<and> a \<le> b)"
  by (auto simp: spec_sort_key_def)

lemma spec_round_order_sorted:
  "sorted (map (\<lambda>n. spec_sort_key bestPath (node_id n) (communication_tokens n))
             (spec_round_order nodes bestPath r))"
  by (simp add: spec_round_order_def)

lemma spec_round_order_stable:
  "filter (\<lambda>n. spec_sort_key bestPath (node_id n) (communication_tokens n) = c)
     (spec_round_order nodes bestPath r)
   = filter (\<lambda>n. spec_sort_key bestPath (node_id n) (communication_tokens n) = c)
       (round_nodes nodes r)"
  unfolding spec_round_order_def by (rule sort_key_stable)

text \<open>
  Claim C2.  Take a node list with pairwise distinct ids that has a node without parent.
  \<open>spec_round_order nodes bestPath r\<close> lists the nodes of round \<open>r\<close> in the order of the
  claim: sorted by the pair of keys (on the best path first, then ascending tokens, by
  \<open>spec_sort_key_le\<close> and \<open>spec_round_order_sorted\<close>), nodes with equal keys in the order of the
  input (\<open>spec_round_order_stable\<close>).  The node at index \<open>k\<close> of that row is laid out at
  \<open>x = k * (NODE_WIDTH + NODE_SPACING) + NODE_WIDTH / 2 + (maxWidth - rowWidth) / 2\<close>,
  where \<open>rowWidth\<close> is the width of its row and \<open>maxWidth\<close> the width of the widest
  row of all rounds, and at \<open>y = r * LEVEL_HEIGHT + NODE_HEIGHT / 2 + 40\<close>.
\<close>

theorem row_placement:
  assumes "distinct (map node_id nodes)"
    and "\<exists>n \<in> set nodes. parent_id n = None"
    and "k < length (spec_round_order nodes bestPath r)"
  shows "x (deref (treeNodes (layoutTree nodes bestPath)) (node_id (spec_round_order nodes bestPath r ! k)))
           = of_nat k * (NODE_WIDTH + NODE_SPACING) + NODE_WIDTH / 2
             + (spec_widest_row nodes - width_of_row (length (spec_round_order nodes bestPath r))) / 2
       \<and> y (deref (treeNodes (layoutTree nodes bestPath)) (node_id (spec_round_order nodes bestPath r ! k)))
           = of_nat r * LEVEL_HEIGHT + NODE_HEIGHT / 2 + 40"
  using assms by (rule placement_of_row)

lemma ex_row:
  "spec_round_order [scenario_A, scenario_C, scenario_D] [''n0''] (Suc 0) = [scenario_D, scenario_C]"
  by (simp add: spec_round_order_def round_nodes_def spec_sort_key_def scenario_A_def scenario_C_def scenario_D_def)

lemma ex_widest: "spec_widest_row [scenario_A, scenario_C, scenario_D] = 300"
  by (simp add: spec_widest_row_def round_nodes_def width_of_row_def NODE_WIDTH_def NODE_SPACING_def
      scenario_A_def scenario_C_def scenario_D_def)

theorem row_placement_witness:
  "distinct (map node_id [scenario_A, scenario_C, scenario_D])
   \<and> (\<exists>n \<in> set [scenario_A, scenario_C, scenario_D]. parent_id n = None)
   \<and> 1 < length (spec_round_order [scenario_A, scenario_C, scenario_D] [''n0''] 1)
   \<and> spec_round_order [scenario_A, scenario_C, scenario_D] [''n0''] 1 = [scenario_D, scenario_C]
   \<and> x (deref (treeNodes (layoutTree [scenario_A, scenario_C, scenario_D] [''n0''])) ''n2'') = 230
   \<and> y (deref (treeNodes (layoutTree [scenario_A, scenario_C, scenario_D] [''n0''])) ''n2'') = 240"
proof -
  have d: "distinct (map node_id [scenario_A, scenario_C, scenario_D])"
    by (simp add: scenario_A_def scenario_C_def scenario_D_def)
  have rt: "\<exists>n \<in> set [scenario_A, scenario_C, scenario_D]. parent_id n = None"
    by (simp add: scenario_A_def)
  have k: "1 < length (spec_round_order [scenario_A, scenario_C, scenario_D] [''n0''] 1)"
    by (simp add: ex_row)
  have n: "node_id scenario_C = ''n2''"
    by (simp add: scenario_C_def)
  from row_placement[OF d rt k] d rt k
  show ?thesis
    by (simp add: n ex_row ex_widest width_of_row_def NODE_WIDTH_def NODE_SPACING_def
        LEVEL_HEIGHT_def NODE_HEIGHT_def)
qed

subsection \<open>Orphans\<close>









section \<open>Properties of a render\<close>

subsection \<open>The best path as a set, and the depth count\<close>

lemma compare_nodes_set:
  "set bp = set bp' \<Longrightarrow> compare_nodes bp m = compare_nodes bp' m"
  by (intro ext) (simp add: compare_nodes_def bestPathSet_has_def)

lemma calculate_positions_set:
  "set bp = set bp' \<Longrightarrow> calculate_positions bp gs mw m = calculate_positions bp' gs mw m"
proof (induction gs arbitrary: mw m)
  case Nil
  then show ?case by simp
next
  case (Cons g gs)
  show ?case
    unfolding calculate_positions_Cons
    by (simp add: Let_def Cons.IH[OF Cons.prems] compare_nodes_set[OF Cons.prems])
qed

lemma layoutTree_set:
  assumes "set bp = set bp'"
  shows "layoutTree ns bp = layoutTree ns bp'"
proof -
  have eq: "calculate_positions bp = calculate_positions bp'"
    by (intro ext) (rule calculate_positions_set[OF assms])
  show ?thesis
    unfolding layoutTree_def eq ..
qed

lemma traverse_edges_set:
  "set bp = set bp' \<Longrightarrow> traverse_edges n bp m v = traverse_edges n bp' m v"
proof (induction n arbitrary: v)
  case 0
  then show ?case by simp
next
  case (Suc n)
  then show ?case
    by (simp add: traverse_edges_Suc edge_to_def bestPathSet_has_def cong: visit_all_cong)
qed

lemma traverse_edges_mono:
  "traverse_edges n bp m v = Some es \<Longrightarrow> traverse_edges (Suc n) bp m v = Some es"
proof (induction n arbitrary: v es)
  case 0
  then show ?case by simp
next
  case (Suc n)
  let ?f = "\<lambda>k c. map_option (Cons (edge_to bp m v c)) (traverse_edges k bp m c)"
  from Suc.prems have "visit_all (?f n) (children (deref m v)) = Some es"
    by (simp add: traverse_edges_Suc)
  then have "visit_all (?f (Suc n)) (children (deref m v)) = Some es"
  proof (rule visit_all_mono[rotated])
    fix c a assume "?f n c = Some a"
    then obtain es' where "traverse_edges n bp m c = Some es'" "a = edge_to bp m v c # es'"
      by auto
    then show "?f (Suc n) c = Some a"
      using Suc.IH[of c es'] by simp
  qed
  then show ?case
    unfolding traverse_edges_Suc[of "Suc n"] .
qed

lemma traverse_edges_mono_le:
  "n \<le> n' \<Longrightarrow> traverse_edges n bp m v = Some es \<Longrightarrow> traverse_edges n' bp m v = Some es"
  by (induction n' rule: dec_induct) (auto intro: traverse_edges_mono)

lemma traverse_edges_fuel:
  assumes "linked m" and "is_root m r" and "length m < n" and "length m < n'"
  shows "traverse_edges n bp m r = traverse_edges n' bp m r"
proof -
  from traverse_nodes_total[OF assms(1,2,3)]
  obtain es where es: "traverse_edges n bp m r = Some es"
    using traverse_edges_None[of n bp m r] by (cases "traverse_edges n bp m r") auto
  from traverse_nodes_total[OF assms(1,2,4)]
  obtain es' where es': "traverse_edges n' bp m r = Some es'"
    using traverse_edges_None[of n' bp m r] by (cases "traverse_edges n' bp m r") auto
  have "traverse_edges (max n n') bp m r = Some es"
    by (rule traverse_edges_mono_le[OF _ es]) simp
  moreover have "traverse_edges (max n n') bp m r = Some es'"
    by (rule traverse_edges_mono_le[OF _ es']) simp
  ultimately show ?thesis using es es' by simp
qed

lemma traverse_nodes_fuel:
  assumes "linked m" and "is_root m r" and "length m < n" and "length m < n'"
  shows "traverse_nodes n m r = traverse_nodes n' m r"
  using traverse_edges_fuel[OF assms, of "[]"]
  by (simp add: traverse_nodes_edges[of _ m r "[]"])

subsection \<open>Reading and writing the heap\<close>

lemma object_at_write:
  "p < length h \<Longrightarrow> object_at (h[p := Object ob]) a = (if a = p then ob else object_at h a)"
  by (simp add: object_at_def)

lemma id_at_write:
  assumes "p < length h" and "node_id ob = id_at h p"
  shows "id_at (h[p := Object ob]) = id_at h"
proof
  fix a
  show "id_at (h[p := Object ob]) a = id_at h a"
    using assms by (cases "a = p") (simp_all add: id_at_def object_at_def)
qed

lemma as_TreeNode_cong:
  assumes "\<And>c. c \<in> set (the (children_prop ob)) \<Longrightarrow> f c = g c"
  shows "as_TreeNode f ob = as_TreeNode g ob"
  using assms by (simp add: as_TreeNode_def)

lemma tree_node_at_write:
  assumes "p < length h" and "node_id ob = id_at h p"
  shows "tree_node_at (h[p := Object ob]) a =
         (if a = p then as_TreeNode (id_at h) ob else tree_node_at h a)"
  by (simp add: tree_node_at_def id_at_write[OF assms] object_at_write[OF assms(1)])

lemma same_below_refl: "same_below L h h"
  by (simp add: same_below_def)

lemma same_below_trans:
  "same_below L h h1 \<Longrightarrow> same_below L h1 h2 \<Longrightarrow> same_below L h h2"
  by (simp add: same_below_def)

lemma same_below_le:
  "same_below L h h' \<Longrightarrow> K \<le> L \<Longrightarrow> same_below K h h'"
  by (simp add: same_below_def)

lemma same_below_write: "L \<le> p \<Longrightarrow> same_below L h (h[p := c])"
  by (simp add: same_below_def)

lemma same_below_alloc: "L \<le> length h \<Longrightarrow> same_below L h (h @ [c])"
  by (simp add: same_below_def nth_append)

lemma same_below_take:
  assumes "same_below (length h) h h'"
  shows "take (length h) h' = h"
  using assms by (intro nth_equalityI) (simp_all add: same_below_def)

lemma same_but_refl: "same_but m h h"
  by (simp add: same_but_def)

lemma same_but_trans: "same_but m h h1 \<Longrightarrow> same_but m h1 h2 \<Longrightarrow> same_but m h h2"
  by (simp add: same_but_def)

lemma same_but_write:
  assumes "p \<in> snd ` set m"
  shows "same_but m h (h[p := c])"
  unfolding same_but_def
proof (intro conjI allI impI)
  fix a assume "a \<notin> snd ` set m"
  with assms have "a \<noteq> p" by blast
  then show "h[p := c] ! a = h ! a" by simp
qed simp

subsection \<open>The store and the groups that a heap holds\<close>

lemma map_fst_store_of: "map fst (store_of m h) = map fst m"
  by (simp add: store_of_def comp_def)

lemma length_store_of: "length (store_of m h) = length m"
  by (simp add: store_of_def)

lemma map_of_store_of: "map_of (store_of m h) k = map_option (tree_node_at h) (map_of m k)"
  unfolding store_of_def by (rule map_of_map_values[of "\<lambda>k. tree_node_at h"])

lemma map_of_entry:
  "distinct (map fst m) \<Longrightarrow> (k, a) \<in> set m \<Longrightarrow> map_of m k = Some a"
  by simp

lemma deref_store_of:
  assumes "distinct (map fst m)" and "(k, a) \<in> set m"
  shows "deref (store_of m h) k = tree_node_at h a"
  by (simp add: deref_def map_of_store_of map_of_entry[OF assms])

lemma store_of_update:
  "store_of (AList.update k a m) h = AList.update k (tree_node_at h a) (store_of m h)"
  by (induction m) (auto simp: store_of_def)

lemma map_fst_groups_of: "map fst (groups_of gs h) = map fst gs"
  by (simp add: groups_of_def comp_def)

lemma map_of_groups_of:
  "map_of (groups_of gs h) r = map_option (\<lambda>g. map (id_at h) (array_at h g)) (map_of gs r)"
  unfolding groups_of_def by (rule map_of_map_values[of "\<lambda>r g. map (id_at h) (array_at h g)"])

lemma groups_of_update:
  "groups_of (AList.update r g gs) h =
   AList.update r (map (id_at h) (array_at h g)) (groups_of gs h)"
  by (induction gs) (auto simp: groups_of_def)

lemma objects_okD:
  assumes "objects_ok L L1 m h" and "(k, a) \<in> set m"
  shows "L \<le> a" and "a < L1" and "a < length h" and "id_at h a = k"
    and "set (the (children_prop (object_at h a))) \<subseteq> snd ` set m"
    and "map_of m k = Some a"
proof -
  from assms have all: "\<forall>p \<in> set m. L \<le> snd p \<and> snd p < L1 \<and> id_at h (snd p) = fst p \<and>
         set (the (children_prop (object_at h (snd p)))) \<subseteq> snd ` set m"
    and len: "L1 \<le> length h" and dist: "distinct (map fst m)"
    by (simp_all add: objects_ok_def)
  from bspec[OF all assms(2)]
  show "L \<le> a" and a: "a < L1" and "id_at h a = k"
    and "set (the (children_prop (object_at h a))) \<subseteq> snd ` set m"
    by simp_all
  from a len show "a < length h" by simp
  from dist assms(2) show "map_of m k = Some a" by simp
qed

lemma objects_ok_distinct: "objects_ok L L1 m h \<Longrightarrow> distinct (map fst m)"
  by (simp add: objects_ok_def)

lemma objects_ok_length: "objects_ok L L1 m h \<Longrightarrow> L1 \<le> length h"
  by (simp add: objects_ok_def)

lemma objects_ok_le: "objects_ok L L1 m h \<Longrightarrow> L \<le> L1"
  by (simp add: objects_ok_def)

lemma objects_ok_address:
  assumes "objects_ok L L1 m h" and "a \<in> snd ` set m"
  shows "(id_at h a, a) \<in> set m"
proof -
  from assms(2) obtain k where "(k, a) \<in> set m" by force
  with objects_okD(4)[OF assms(1) this] show ?thesis by simp
qed

text \<open>The store depends on the cells below \<open>L1\<close> only.\<close>

lemma store_of_same_below:
  assumes ok: "objects_ok L L1 m h" and same: "same_below L1 h h'"
  shows "store_of m h' = store_of m h"
proof -
  have cell: "h' ! a = h ! a" if "a \<in> snd ` set m" for a
  proof -
    from that obtain k where "(k, a) \<in> set m" by force
    from objects_okD(2)[OF ok this] same show ?thesis by (simp add: same_below_def)
  qed
  have node: "tree_node_at h' (snd p) = tree_node_at h (snd p)" if "p \<in> set m" for p
  proof -
    have p: "(fst p, snd p) \<in> set m" using that by simp
    have a: "snd p \<in> snd ` set m" using that by simp
    have kids: "id_at h' c = id_at h c"
      if "c \<in> set (the (children_prop (object_at h (snd p))))" for c
    proof -
      from objects_okD(5)[OF ok p] that have "c \<in> snd ` set m" by (rule subsetD)
      from cell[OF this] show ?thesis by (simp add: id_at_def object_at_def)
    qed
    have "object_at h' (snd p) = object_at h (snd p)"
      using cell[OF a] by (simp add: object_at_def)
    then show ?thesis
      unfolding tree_node_at_def using as_TreeNode_cong[OF kids] by simp
  qed
  show ?thesis
    unfolding store_of_def by (rule map_cong[OF refl]) (simp add: node)
qed

lemma objects_ok_same_below:
  assumes ok: "objects_ok L L1 m h" and same: "same_below L1 h h'"
  shows "objects_ok L L1 m h'"
proof -
  have cell: "h' ! a = h ! a" if "a \<in> snd ` set m" for a
  proof -
    from that obtain k where "(k, a) \<in> set m" by force
    from objects_okD(2)[OF ok this] same show ?thesis by (simp add: same_below_def)
  qed
  have "L1 \<le> length h'"
    using objects_ok_length[OF ok] same by (simp add: same_below_def)
  moreover have "L \<le> snd p \<and> snd p < L1 \<and> id_at h' (snd p) = fst p \<and>
         set (the (children_prop (object_at h' (snd p)))) \<subseteq> snd ` set m" if "p \<in> set m" for p
  proof -
    have p: "(fst p, snd p) \<in> set m" using that by simp
    have a: "snd p \<in> snd ` set m" using that by simp
    show ?thesis
      using objects_okD(1,2,4,5)[OF ok p] cell[OF a]
      by (simp add: id_at_def object_at_def)
  qed
  ultimately show ?thesis
    using objects_ok_distinct[OF ok] objects_ok_le[OF ok] unfolding objects_ok_def by blast
qed

text \<open>
  A write to an object of the map that keeps its id is \<open>map_entry\<close> on the store.
\<close>

lemma store_of_write:
  assumes ok: "objects_ok L L1 m h" and p: "(k, p) \<in> set m"
    and ob: "node_id ob = k" and F: "F (tree_node_at h p) = as_TreeNode (id_at h) ob"
  shows "store_of m (h[p := Object ob]) = AList.map_entry k F (store_of m h)"
proof -
  have len: "p < length h" by (rule objects_okD(3)[OF ok p])
  have idp: "node_id ob = id_at h p" using objects_okD(4)[OF ok p] ob by simp
  have dist: "distinct (map fst (store_of m h))"
    using objects_ok_distinct[OF ok] by (simp add: map_fst_store_of)
  have "(fst q, tree_node_at (h[p := Object ob]) (snd q)) =
        (fst q, if fst q = k then F (tree_node_at h (snd q)) else tree_node_at h (snd q))"
    if "q \<in> set m" for q
  proof -
    have q: "(fst q, snd q) \<in> set m" using that by simp
    have "snd q = p \<longleftrightarrow> fst q = k"
    proof
      assume "snd q = p"
      with objects_okD(4)[OF ok q] objects_okD(4)[OF ok p] show "fst q = k" by simp
    next
      assume "fst q = k"
      with objects_okD(6)[OF ok q] objects_okD(6)[OF ok p] show "snd q = p" by simp
    qed
    then show ?thesis
      by (cases "fst q = k") (simp_all add: tree_node_at_write[OF len idp] F)
  qed
  then show ?thesis
    unfolding map_entry_as_map[OF dist] unfolding store_of_def
    by (simp add: comp_def cong: map_cong)
qed

lemma objects_ok_write:
  assumes ok: "objects_ok L L1 m h" and p: "(k, p) \<in> set m"
    and ob: "node_id ob = k"
    and kids: "set (the (children_prop ob)) \<subseteq> snd ` set m"
  shows "objects_ok L L1 m (h[p := Object ob])"
proof -
  have len: "p < length h" by (rule objects_okD(3)[OF ok p])
  have idp: "node_id ob = id_at h p" using objects_okD(4)[OF ok p] ob by simp
  have "L \<le> snd q \<and> snd q < L1 \<and> id_at (h[p := Object ob]) (snd q) = fst q \<and>
        set (the (children_prop (object_at (h[p := Object ob]) (snd q)))) \<subseteq> snd ` set m"
    if "q \<in> set m" for q
  proof -
    have q: "(fst q, snd q) \<in> set m" using that by simp
    show ?thesis
      using objects_okD(1,2,4,5)[OF ok q] kids
      by (simp add: id_at_write[OF len idp] object_at_write[OF len])
  qed
  then show ?thesis
    using objects_ok_distinct[OF ok] objects_ok_length[OF ok] objects_ok_le[OF ok]
    unfolding objects_ok_def by simp
qed
lemma same_but_below:
  assumes ok: "objects_ok L L1 m h" and same: "same_but m h h'"
  shows "same_below L h h'"
  unfolding same_below_def
proof (intro conjI allI impI)
  show "length h \<le> length h'" using same by (simp add: same_but_def)
next
  fix a assume a: "a < L"
  have "a \<notin> snd ` set m"
  proof
    assume "a \<in> snd ` set m"
    then obtain k where "(k, a) \<in> set m" by force
    from objects_okD(1)[OF ok this] a show False by simp
  qed
  with same show "h' ! a = h ! a" by (simp add: same_but_def)
qed

subsection \<open>Creating the objects on the heap\<close>

lemma truncate_fields:
  "node_id (ProtocolNode.truncate ob) = node_id ob"
  "parent_id (ProtocolNode.truncate ob) = parent_id ob"
  "round_index (ProtocolNode.truncate ob) = round_index ob"
  "communication_tokens (ProtocolNode.truncate ob) = communication_tokens ob"
  "rule (ProtocolNode.truncate ob) = rule ob"
  by (simp_all add: ProtocolNode.truncate_def)

lemma as_TreeNode_new:
  "as_TreeNode f (ob\<lparr>x_prop := Some 0, y_prop := Some 0, children_prop := Some []\<rparr>) =
   new_TreeNode (ProtocolNode.truncate ob)"
  by (simp add: as_TreeNode_def new_TreeNode_def truncate_fields)

lemma copy_node_eq:
  "copy_node (m, h) a =
     (AList.update (id_at h a) (length h) m,
      h @ [Object ((object_at h a)\<lparr>x_prop := Some 0, y_prop := Some 0, children_prop := Some []\<rparr>)])"
  by (simp add: copy_node_def alloc_def id_at_def Let_def)

lemma create_tree_nodes_snoc:
  "create_tree_nodes (ns @ [n]) =
   AList.update (node_id n) (new_TreeNode n) (create_tree_nodes ns)"
  by (simp add: create_tree_nodes_def)

lemma h_create_tree_nodes_sim:
  assumes "\<forall>a \<in> set as. a < length h"
  shows "same_below (length h) h (snd (h_create_tree_nodes h as)) \<and>
         length h \<le> length (snd (h_create_tree_nodes h as)) \<and>
         distinct (map fst (fst (h_create_tree_nodes h as))) \<and>
         (\<forall>p \<in> set (fst (h_create_tree_nodes h as)).
            length h \<le> snd p \<and> snd p < length (snd (h_create_tree_nodes h as)) \<and>
            id_at (snd (h_create_tree_nodes h as)) (snd p) = fst p \<and>
            children_prop (object_at (snd (h_create_tree_nodes h as)) (snd p)) = Some []) \<and>
         store_of (fst (h_create_tree_nodes h as)) (snd (h_create_tree_nodes h as)) =
           create_tree_nodes (map (\<lambda>a. ProtocolNode.truncate (object_at h a)) as)"
  using assms
proof (induction as rule: rev_induct)
  case Nil
  show ?case
    by (simp add: h_create_tree_nodes_def same_below_refl store_of_def create_tree_nodes_def)
next
  case (snoc a as)
  obtain m h1 where st: "h_create_tree_nodes h as = (m, h1)"
    by (cases "h_create_tree_nodes h as")
  from snoc.prems have a: "a < length h" and as: "\<forall>a \<in> set as. a < length h"
    by simp_all
  from snoc.IH[OF as] have same: "same_below (length h) h h1" and len: "length h \<le> length h1"
    and dist: "distinct (map fst m)"
    and fresh: "\<forall>p \<in> set m. length h \<le> snd p \<and> snd p < length h1 \<and>
                  id_at h1 (snd p) = fst p \<and> children_prop (object_at h1 (snd p)) = Some []"
    and store: "store_of m h1 = create_tree_nodes (map (\<lambda>a. ProtocolNode.truncate (object_at h a)) as)"
    by (simp_all add: st)
  define c where
    "c = Object ((object_at h1 a)\<lparr>x_prop := Some 0, y_prop := Some 0, children_prop := Some []\<rparr>)"
  define k where "k = id_at h1 a"
  have step: "h_create_tree_nodes h (as @ [a]) = (AList.update k (length h1) m, h1 @ [c])"
    using st by (simp add: h_create_tree_nodes_def copy_node_eq c_def k_def)
  have obj: "object_at h1 a = object_at h a"
    using same a by (simp add: same_below_def object_at_def)
  have ok: "objects_ok (length h) (length h1) m h1"
    unfolding objects_ok_def using dist fresh len by simp
  have alloc: "same_below (length h1) h1 (h1 @ [c])"
    by (rule same_below_alloc) simp
  have new_id: "id_at (h1 @ [c]) (length h1) = k"
    by (simp add: id_at_def object_at_def c_def k_def)
  have old: "id_at (h1 @ [c]) b = id_at h1 b \<and> object_at (h1 @ [c]) b = object_at h1 b"
    if "b < length h1" for b
    using that by (simp add: id_at_def object_at_def nth_append)
  have "same_below (length h) h (h1 @ [c])"
    by (rule same_below_trans[OF same same_below_le[OF alloc len]])
  moreover have "distinct (map fst (AList.update k (length h1) m))"
    using dist by (simp add: distinct_update)
  moreover have "length h \<le> snd p \<and> snd p < length (h1 @ [c]) \<and>
            id_at (h1 @ [c]) (snd p) = fst p \<and>
            children_prop (object_at (h1 @ [c]) (snd p)) = Some []"
    if "p \<in> set (AList.update k (length h1) m)" for p
  proof -
    from that have "p \<in> set m \<or> p = (k, length h1)" by (rule set_update_subset)
    then show ?thesis
    proof
      assume p: "p \<in> set m"
      with fresh have "snd p < length h1" by simp
      from old[OF this] bspec[OF fresh p] show ?thesis by simp
    next
      assume "p = (k, length h1)"
      then show ?thesis using len new_id by (simp add: object_at_def c_def)
    qed
  qed
  moreover have "store_of (AList.update k (length h1) m) (h1 @ [c]) =
     create_tree_nodes (map (\<lambda>a. ProtocolNode.truncate (object_at h a)) (as @ [a]))"
  proof -
    have "object_at (h1 @ [c]) (length h1) = the_object c"
      by (simp add: object_at_def)
    also have "the_object c =
          (object_at h a)\<lparr>x_prop := Some 0, y_prop := Some 0, children_prop := Some []\<rparr>"
      by (simp add: c_def obj)
    finally have "tree_node_at (h1 @ [c]) (length h1) =
               new_TreeNode (ProtocolNode.truncate (object_at h a))"
      unfolding tree_node_at_def by (simp only: as_TreeNode_new)
    moreover have "k = node_id (ProtocolNode.truncate (object_at h a))"
      by (simp add: k_def id_at_def obj truncate_fields)
    ultimately show ?thesis
      by (simp add: store_of_update store_of_same_below[OF ok alloc] store
                    create_tree_nodes_snoc)
  qed
  ultimately show ?case
    unfolding step using len by simp
qed

subsection \<open>Building the relationships on the heap\<close>

lemma as_TreeNode_push_child:
  "as_TreeNode f (push_child a ob) =
   (as_TreeNode f ob)\<lparr>children := children (as_TreeNode f ob) @ [f a]\<rparr>"
  by (simp add: as_TreeNode_def push_child_def)

lemma h_attach_sim:
  assumes ok: "objects_ok L L1 m h" and a: "(k, a) \<in> set m"
    and st: "h_attach m (rt, h) a = (rt', h')"
  shows "attach k (map_option (id_at h) rt, store_of m h) =
           (map_option (id_at h') rt', store_of m h')"
    and "objects_ok L L1 m h'" and "same_but m h h'"
    and "(\<forall>r. rt = Some r \<longrightarrow> r \<in> snd ` set m) \<Longrightarrow> (\<forall>r. rt' = Some r \<longrightarrow> r \<in> snd ` set m)"
proof -
  have dist: "distinct (map fst m)" by (rule objects_ok_distinct[OF ok])
  have parent: "parent_id (deref (store_of m h) k) = parent_id (object_at h a)"
    by (simp add: deref_store_of[OF dist a] tree_node_at_def as_TreeNode_def)
  have ida: "id_at h a = k" by (rule objects_okD(4)[OF ok a])
  have am: "a \<in> snd ` set m" using a by force
  have "attach k (map_option (id_at h) rt, store_of m h) =
           (map_option (id_at h') rt', store_of m h') \<and>
        objects_ok L L1 m h' \<and> same_but m h h' \<and>
        ((\<forall>r. rt = Some r \<longrightarrow> r \<in> snd ` set m) \<longrightarrow> (\<forall>r. rt' = Some r \<longrightarrow> r \<in> snd ` set m))"
  proof (cases "parent_id (object_at h a)")
    case None
    with st have "rt' = Some a" "h' = h" by (simp_all add: h_attach_def)
    then show ?thesis
      using None ok am by (simp add: attach_def parent ida same_but_refl)
  next
    case (Some pid)
    show ?thesis
    proof (cases "map_of m pid")
      case None
      with st Some have "rt' = rt" "h' = h" by (simp_all add: h_attach_def)
      then show ?thesis
        using None Some ok by (simp add: attach_def parent map_of_store_of same_but_refl)
    next
      case p: (Some p)
      define ob where "ob = push_child a (object_at h p)"
      from st Some p have rt': "rt' = rt" and h': "h' = h[p := Object ob]"
        by (simp_all add: h_attach_def ob_def)
      have pm: "(pid, p) \<in> set m" using p by (rule map_of_SomeD)
      have plen: "p < length h" by (rule objects_okD(3)[OF ok pm])
      have idp: "id_at h p = pid" by (rule objects_okD(4)[OF ok pm])
      have idob: "node_id ob = pid"
        using idp by (simp add: ob_def push_child_def id_at_def)
      have kids: "set (the (children_prop ob)) \<subseteq> snd ` set m"
        using objects_okD(5)[OF ok pm] am by (simp add: ob_def push_child_def)
      have "store_of m h' =
            AList.map_entry pid (\<lambda>t. t\<lparr>children := children t @ [k]\<rparr>) (store_of m h)"
        unfolding h'
        by (rule store_of_write[OF ok pm idob])
           (simp add: tree_node_at_def ob_def as_TreeNode_push_child ida)
      moreover have "id_at h' = id_at h"
        unfolding h' by (rule id_at_write[OF plen]) (simp add: idob idp)
      moreover have "objects_ok L L1 m h'"
        unfolding h' by (rule objects_ok_write[OF ok pm idob kids])
      moreover have "same_but m h h'"
        unfolding h' by (rule same_but_write) (use pm in force)
      ultimately show ?thesis
        using Some p rt' by (simp add: attach_def parent map_of_store_of)
    qed
  qed
  then show "attach k (map_option (id_at h) rt, store_of m h) =
           (map_option (id_at h') rt', store_of m h')"
    and "objects_ok L L1 m h'" and "same_but m h h'"
    and "(\<forall>r. rt = Some r \<longrightarrow> r \<in> snd ` set m) \<Longrightarrow> (\<forall>r. rt' = Some r \<longrightarrow> r \<in> snd ` set m)"
    by blast+
qed

lemma h_attach_fold:
  assumes "objects_ok L L1 m h" and "set xs \<subseteq> set m"
    and "\<forall>r. rt = Some r \<longrightarrow> r \<in> snd ` set m"
    and "foldl (h_attach m) (rt, h) (map snd xs) = (rt', h')"
  shows "foldl (\<lambda>st k. attach k st) (map_option (id_at h) rt, store_of m h) (map fst xs) =
           (map_option (id_at h') rt', store_of m h') \<and>
         objects_ok L L1 m h' \<and> same_but m h h' \<and> (\<forall>r. rt' = Some r \<longrightarrow> r \<in> snd ` set m)"
  using assms
proof (induction xs arbitrary: rt h)
  case Nil
  then show ?case by (simp add: same_but_refl)
next
  case (Cons q xs)
  obtain rt1 h1 where st: "h_attach m (rt, h) (snd q) = (rt1, h1)"
    by (cases "h_attach m (rt, h) (snd q)")
  have q: "(fst q, snd q) \<in> set m" using Cons.prems(2) by simp
  note sim = h_attach_sim[OF Cons.prems(1) q st]
  have rest: "foldl (h_attach m) (rt1, h1) (map snd xs) = (rt', h')"
    using Cons.prems(4) st by simp
  have xs: "set xs \<subseteq> set m" using Cons.prems(2) by simp
  from Cons.IH[OF sim(2) xs sim(4)[OF Cons.prems(3)] rest] sim(1) sim(3)
  show ?case by (simp add: same_but_trans[of m h h1 h'])
qed

lemma h_build_relationships_sim:
  assumes ok: "objects_ok L L1 m h" and st: "h_build_relationships m h = (rt, h')"
  shows "build_relationships (store_of m h) = (map_option (id_at h') rt, store_of m h')"
    and "objects_ok L L1 m h'" and "same_but m h h'" and "\<forall>r. rt = Some r \<longrightarrow> r \<in> snd ` set m"
proof -
  have "foldl (h_attach m) (None, h) (map snd m) = (rt, h')"
    using st by (simp add: h_build_relationships_def)
  from h_attach_fold[OF ok subset_refl _ this]
  show "build_relationships (store_of m h) = (map_option (id_at h') rt, store_of m h')"
    and "objects_ok L L1 m h'" and "same_but m h h'" and "\<forall>r. rt = Some r \<longrightarrow> r \<in> snd ` set m"
    by (simp_all add: build_relationships_def map_fst_store_of)
qed
subsection \<open>Grouping by round on the heap\<close>

lemma groups_okD:
  assumes "groups_ok L1 m gs h" and "(r, g) \<in> set gs"
  shows "L1 \<le> g" and "g < length h" and "set (array_at h g) \<subseteq> snd ` set m"
    and "map_of gs r = Some g"
proof -
  from assms(1) have all: "\<forall>q \<in> set gs. L1 \<le> snd q \<and> snd q < length h \<and>
         set (array_at h (snd q)) \<subseteq> snd ` set m"
    and dist: "distinct (map fst gs)"
    by (simp_all add: groups_ok_def)
  from bspec[OF all assms(2)]
  show "L1 \<le> g" and "g < length h" and "set (array_at h g) \<subseteq> snd ` set m"
    by simp_all
  from dist assms(2) show "map_of gs r = Some g" by simp
qed

lemma groups_ok_address:
  assumes "groups_ok L1 m gs h" and "(r, g) \<in> set gs" and "(r', g) \<in> set gs"
  shows "r' = r"
proof -
  from assms(1) have "distinct (map snd gs)" by (simp add: groups_ok_def)
  then have "inj_on snd (set gs)" by (simp add: distinct_map)
  from inj_onD[OF this _ assms(2,3)] show ?thesis by simp
qed

lemma groups_ok_Cons:
  "groups_ok L1 m (q # gs) h \<Longrightarrow> groups_ok L1 m gs h"
  by (simp add: groups_ok_def)

text \<open>The groups depend on the cells of their arrays and on the ids of the objects.\<close>

lemma groups_of_same:
  assumes gok: "groups_ok L1 m gs h"
    and cells: "\<And>q. q \<in> set gs \<Longrightarrow> h' ! snd q = h ! snd q"
    and ids: "\<And>a. a \<in> snd ` set m \<Longrightarrow> id_at h' a = id_at h a"
  shows "groups_of gs h' = groups_of gs h"
  unfolding groups_of_def
proof (rule map_cong[OF refl])
  fix q assume q: "q \<in> set gs"
  then have q': "(fst q, snd q) \<in> set gs" by simp
  have arr: "array_at h' (snd q) = array_at h (snd q)"
    using cells[OF q] by (simp add: array_at_def)
  have "map (id_at h') (array_at h (snd q)) = map (id_at h) (array_at h (snd q))"
  proof (rule map_cong[OF refl])
    fix a assume "a \<in> set (array_at h (snd q))"
    with groups_okD(3)[OF gok q'] have "a \<in> snd ` set m" by (rule subsetD)
    then show "id_at h' a = id_at h a" by (rule ids)
  qed
  then show "(fst q, map (id_at h') (array_at h' (snd q))) =
             (fst q, map (id_at h) (array_at h (snd q)))"
    by (simp add: arr)
qed

lemma groups_ok_same:
  assumes gok: "groups_ok L1 m gs h" and len: "length h \<le> length h'"
    and cells: "\<And>q. q \<in> set gs \<Longrightarrow> h' ! snd q = h ! snd q"
  shows "groups_ok L1 m gs h'"
proof -
  have "L1 \<le> snd q \<and> snd q < length h' \<and> set (array_at h' (snd q)) \<subseteq> snd ` set m"
    if "q \<in> set gs" for q
  proof -
    have q': "(fst q, snd q) \<in> set gs" using that by simp
    show ?thesis
      using groups_okD(1,2,3)[OF gok q'] len cells[OF that] by (simp add: array_at_def)
  qed
  then show ?thesis using gok unfolding groups_ok_def by simp
qed

lemma id_at_other: "c \<noteq> g \<Longrightarrow> id_at (h[g := cell]) c = id_at h c"
  by (simp add: id_at_def object_at_def)

lemma object_address_below:
  assumes "objects_ok L L1 m h" and "a \<in> snd ` set m"
  shows "a < L1"
proof -
  from assms(2) obtain k where "(k, a) \<in> set m" by force
  from objects_okD(2)[OF assms(1) this] show ?thesis .
qed

text \<open>A write to the array of a round is \<open>map_entry\<close> on the groups.\<close>

lemma groups_of_write:
  assumes ok: "objects_ok L L1 m h" and gok: "groups_ok L1 m gs h"
    and g: "(r, g) \<in> set gs" and xs: "set xs \<subseteq> snd ` set m"
    and F: "F (map (id_at h) (array_at h g)) = map (id_at h) xs"
  shows "groups_of gs (h[g := Array xs]) = AList.map_entry r F (groups_of gs h)"
    and "groups_ok L1 m gs (h[g := Array xs])"
    and "same_below L1 h (h[g := Array xs])"
proof -
  have glen: "g < length h" by (rule groups_okD(2)[OF gok g])
  have gL: "L1 \<le> g" by (rule groups_okD(1)[OF gok g])
  have ids: "id_at (h[g := Array xs]) a = id_at h a" if "a \<in> snd ` set m" for a
  proof -
    from object_address_below[OF ok that] gL have "a \<noteq> g" by simp
    then show ?thesis by (rule id_at_other)
  qed
  have dist: "distinct (map fst (groups_of gs h))"
    using gok by (simp add: map_fst_groups_of groups_ok_def)
  have entry: "(fst q, map (id_at (h[g := Array xs])) (array_at (h[g := Array xs]) (snd q))) =
        (fst q, if fst q = r then F (map (id_at h) (array_at h (snd q)))
                else map (id_at h) (array_at h (snd q)))"
    if "q \<in> set gs" for q
  proof -
    have q: "(fst q, snd q) \<in> set gs" using that by simp
    have same: "map (id_at (h[g := Array xs])) ys = map (id_at h) ys"
      if "set ys \<subseteq> snd ` set m" for ys
      using that ids by (intro map_cong[OF refl]) blast
    have iff: "snd q = g \<longleftrightarrow> fst q = r"
    proof
      assume "snd q = g"
      with q have "(fst q, g) \<in> set gs" by simp
      from groups_ok_address[OF gok g this] show "fst q = r" .
    next
      assume "fst q = r"
      with groups_okD(4)[OF gok q] groups_okD(4)[OF gok g] show "snd q = g" by simp
    qed
    show ?thesis
    proof (cases "fst q = r")
      case True
      with iff have "snd q = g" by simp
      then show ?thesis
        using True glen by (simp add: array_at_def[of "h[g := Array xs]"] same[OF xs] F)
    next
      case False
      with iff have "snd q \<noteq> g" by simp
      then show ?thesis
        using False same[OF groups_okD(3)[OF gok q]]
        by (simp add: array_at_def[of "h[g := Array xs]"] array_at_def[of h, symmetric])
    qed
  qed
  show "groups_of gs (h[g := Array xs]) = AList.map_entry r F (groups_of gs h)"
    unfolding map_entry_as_map[OF dist] unfolding groups_of_def
    by (simp add: comp_def entry cong: map_cong)
  have "L1 \<le> snd q \<and> snd q < length (h[g := Array xs]) \<and>
        set (array_at (h[g := Array xs]) (snd q)) \<subseteq> snd ` set m"
    if "q \<in> set gs" for q
  proof -
    have q: "(fst q, snd q) \<in> set gs" using that by simp
    show ?thesis
      using groups_okD(1,2,3)[OF gok q] xs glen
      by (cases "snd q = g") (simp_all add: array_at_def)
  qed
  then show "groups_ok L1 m gs (h[g := Array xs])"
    using gok unfolding groups_ok_def by simp
  show "same_below L1 h (h[g := Array xs])"
    by (rule same_below_write[OF gL])
qed

lemma add_to_group_eq:
  "add_to_group M G k =
     AList.map_entry (round_index (deref M k)) (\<lambda>ks. ks @ [k])
       (if map_of G (round_index (deref M k)) = None
        then AList.update (round_index (deref M k)) [] G else G)"
  by (simp add: add_to_group_def Let_def)

lemma h_add_to_group_eq:
  "h_add_to_group (gs, h) a =
     (let r = round_index (object_at h a);
          gs1 = (if map_of gs r = None then AList.update r (length h) gs else gs);
          h1 = (if map_of gs r = None then h @ [Array []] else h);
          g = the (map_of gs1 r)
      in (gs1, h1[g := Array (array_at h1 g @ [a])]))"
  by (simp add: h_add_to_group_def alloc_def Let_def)

lemma h_add_to_group_sim:
  assumes ok: "objects_ok L L1 m h" and gok: "groups_ok L1 m gs h"
    and a: "(k, a) \<in> set m" and st: "h_add_to_group (gs, h) a = (gs', h')"
  shows "groups_of gs' h' = add_to_group (store_of m h) (groups_of gs h) k"
    and "groups_ok L1 m gs' h'" and "same_below L1 h h'"
proof -
  define r where "r = round_index (object_at h a)"
  define gs1 where "gs1 = (if map_of gs r = None then AList.update r (length h) gs else gs)"
  define h1 where "h1 = (if map_of gs r = None then h @ [Array []] else h)"
  define g where "g = the (map_of gs1 r)"
  have dist: "distinct (map fst m)" by (rule objects_ok_distinct[OF ok])
  have len: "L1 \<le> length h" by (rule objects_ok_length[OF ok])
  have r: "round_index (deref (store_of m h) k) = r"
    by (simp add: deref_store_of[OF dist a] tree_node_at_def as_TreeNode_def r_def)
  have ida: "id_at h a = k" by (rule objects_okD(4)[OF ok a])
  have am: "a \<in> snd ` set m" using a by force
  have "h_add_to_group (gs, h) a = (gs1, h1[g := Array (array_at h1 g @ [a])])"
    unfolding h_add_to_group_eq Let_def g_def h1_def gs1_def r_def ..
  with st have gs': "gs' = gs1" and h': "h' = h1[g := Array (array_at h1 g @ [a])]"
    by simp_all
  have same1: "same_below L1 h h1"
    by (simp add: h1_def same_below_refl same_below_alloc[OF len])
  have ok1: "objects_ok L L1 m h1"
    by (rule objects_ok_same_below[OF ok same1])
  have ids1: "id_at h1 c = id_at h c" if "c \<in> snd ` set m" for c
    using object_address_below[OF ok that] same1
    by (simp add: same_below_def id_at_def object_at_def)
  have cells1: "h1 ! snd q = h ! snd q" if "q \<in> set gs" for q
  proof -
    have "(fst q, snd q) \<in> set gs" using that by simp
    from groups_okD(2)[OF gok this] show ?thesis by (simp add: h1_def nth_append)
  qed
  have len1: "length h \<le> length h1" by (simp add: h1_def)
  have gok_h1: "groups_ok L1 m gs h1"
    by (rule groups_ok_same[OF gok len1 cells1])
  have same_groups: "groups_of gs h1 = groups_of gs h"
    by (rule groups_of_same[OF gok cells1 ids1])
  have sim1: "groups_of gs1 h1 =
        (if map_of (groups_of gs h) r = None then AList.update r [] (groups_of gs h)
         else groups_of gs h)"
    and gok1: "groups_ok L1 m gs1 h1" and g: "(r, g) \<in> set gs1"
  proof -
    show "groups_of gs1 h1 =
        (if map_of (groups_of gs h) r = None then AList.update r [] (groups_of gs h)
         else groups_of gs h)"
    proof (cases "map_of gs r")
      case None
      then have "array_at h1 (length h) = []" by (simp add: h1_def array_at_def)
      with None show ?thesis
        by (simp add: gs1_def map_of_groups_of groups_of_update same_groups)
    next
      case (Some g0)
      then show ?thesis
        by (simp add: gs1_def map_of_groups_of same_groups)
    qed
    show "groups_ok L1 m gs1 h1"
    proof (cases "map_of gs r")
      case None
      then have fresh: "r \<notin> fst ` set gs" by (simp add: map_of_eq_None_iff)
      have new: "length h \<notin> snd ` set gs"
      proof
        assume "length h \<in> snd ` set gs"
        then obtain r' where "(r', length h) \<in> set gs" by force
        from groups_okD(2)[OF gok this] show False by simp
      qed
      have upd: "AList.update r (length h) gs = gs @ [(r, length h)]"
        using fresh by (induction gs) auto
      have "L1 \<le> snd q \<and> snd q < length h1 \<and> set (array_at h1 (snd q)) \<subseteq> snd ` set m"
        if "q \<in> set (gs @ [(r, length h)])" for q
      proof (cases "q \<in> set gs")
        case True
        with gok_h1 show ?thesis by (simp add: groups_ok_def)
      next
        case False
        with that have "q = (r, length h)" by simp
        then show ?thesis using None len by (simp add: h1_def array_at_def)
      qed
      then show ?thesis
        using None gok fresh new unfolding groups_ok_def gs1_def upd by simp
    next
      case (Some g0)
      then show ?thesis using gok_h1 by (simp add: gs1_def)
    qed
    show "(r, g) \<in> set gs1"
    proof (cases "map_of gs r")
      case None
      then show ?thesis
        by (simp add: g_def gs1_def update_conv' set_update_subset map_of_SomeD)
    next
      case (Some g0)
      then show ?thesis by (simp add: g_def gs1_def map_of_SomeD)
    qed
  qed
  have xs: "set (array_at h1 g @ [a]) \<subseteq> snd ` set m"
    using groups_okD(3)[OF gok1 g] am by simp
  have F: "(\<lambda>ks. ks @ [k]) (map (id_at h1) (array_at h1 g)) = map (id_at h1) (array_at h1 g @ [a])"
    by (simp add: ids1[OF am] ida)
  note w = groups_of_write[where F = "\<lambda>ks. ks @ [k]", OF ok1 gok1 g xs F]
  show "groups_of gs' h' = add_to_group (store_of m h) (groups_of gs h) k"
    unfolding gs' h' w(1) add_to_group_eq r sim1 ..
  show "groups_ok L1 m gs' h'" unfolding gs' h' by (rule w(2))
  show "same_below L1 h h'" unfolding h' by (rule same_below_trans[OF same1 w(3)])
qed

lemma h_add_to_group_fold:
  assumes "objects_ok L L1 m h" and "groups_ok L1 m gs h" and "set xs \<subseteq> set m"
    and "foldl h_add_to_group (gs, h) (map snd xs) = (gs', h')"
  shows "groups_of gs' h' = foldl (add_to_group (store_of m h)) (groups_of gs h) (map fst xs) \<and>
         groups_ok L1 m gs' h' \<and> same_below L1 h h'"
  using assms
proof (induction xs arbitrary: gs h)
  case Nil
  then show ?case by (simp add: same_below_refl)
next
  case (Cons q xs)
  obtain gs1 h1 where st: "h_add_to_group (gs, h) (snd q) = (gs1, h1)"
    by (cases "h_add_to_group (gs, h) (snd q)")
  have q: "(fst q, snd q) \<in> set m" using Cons.prems(3) by simp
  note sim = h_add_to_group_sim[OF Cons.prems(1,2) q st]
  have ok1: "objects_ok L L1 m h1"
    by (rule objects_ok_same_below[OF Cons.prems(1) sim(3)])
  have store: "store_of m h1 = store_of m h"
    by (rule store_of_same_below[OF Cons.prems(1) sim(3)])
  have rest: "foldl h_add_to_group (gs1, h1) (map snd xs) = (gs', h')"
    using Cons.prems(4) st by simp
  have xs: "set xs \<subseteq> set m" using Cons.prems(3) by simp
  from Cons.IH[OF ok1 sim(2) xs rest] sim(1)
  show ?case by (simp add: store same_below_trans[OF sim(3)])
qed

lemma h_group_by_round_sim:
  assumes ok: "objects_ok L L1 m h" and st: "h_group_by_round m h = (gs, h')"
  shows "groups_of gs h' = group_by_round (store_of m h)"
    and "groups_ok L1 m gs h'" and "same_below L1 h h'"
proof -
  have "foldl h_add_to_group ([], h) (map snd m) = (gs, h')"
    using st by (simp add: h_group_by_round_def)
  moreover have "groups_ok L1 m [] h" by (simp add: groups_ok_def)
  ultimately have "groups_of gs h' =
       foldl (add_to_group (store_of m h)) (groups_of [] h) (map fst m) \<and>
       groups_ok L1 m gs h' \<and> same_below L1 h h'"
    by (intro h_add_to_group_fold[OF ok _ subset_refl])
  then show "groups_of gs h' = group_by_round (store_of m h)"
    and "groups_ok L1 m gs h'" and "same_below L1 h h'"
    by (simp_all add: group_by_round_def map_fst_store_of groups_of_def)
qed
subsection \<open>Sorting and placing the rows on the heap\<close>

lemma objects_ok_ids:
  assumes "objects_ok L L1 m h" and "objects_ok L L1 m h'" and "a \<in> snd ` set m"
  shows "id_at h' a = id_at h a"
proof -
  from assms(3) obtain k where k: "(k, a) \<in> set m" by force
  from objects_okD(4)[OF assms(1) k] objects_okD(4)[OF assms(2) k] show ?thesis by simp
qed

lemma map_id_at_same:
  assumes "objects_ok L L1 m h" and "objects_ok L L1 m h'" and "set as \<subseteq> snd ` set m"
  shows "map (id_at h') as = map (id_at h) as"
proof (rule map_cong[OF refl])
  fix a assume "a \<in> set as"
  with assms(3) have "a \<in> snd ` set m" by (rule subsetD)
  then show "id_at h' a = id_at h a" by (rule objects_ok_ids[OF assms(1,2)])
qed

lemma group_address_not_object:
  assumes ok: "objects_ok L L1 m h" and gok: "groups_ok L1 m gs h" and q: "q \<in> set gs"
  shows "snd q \<notin> snd ` set m"
proof
  assume "snd q \<in> snd ` set m"
  from object_address_below[OF ok this] groups_okD(1)[OF gok, of "fst q" "snd q"] q
  show False by simp
qed

text \<open>Writes to the objects leave the groups as they are.\<close>

lemma groups_same_but:
  assumes ok: "objects_ok L L1 m h" and ok': "objects_ok L L1 m h'"
    and gok: "groups_ok L1 m gs h" and same: "same_but m h h'"
  shows "groups_of gs h' = groups_of gs h" and "groups_ok L1 m gs h'"
proof -
  have cells: "h' ! snd q = h ! snd q" if "q \<in> set gs" for q
    using group_address_not_object[OF ok gok that] same by (simp add: same_but_def)
  show "groups_of gs h' = groups_of gs h"
    by (rule groups_of_same[OF gok cells objects_ok_ids[OF ok ok']])
  show "groups_ok L1 m gs h'"
    by (rule groups_ok_same[OF gok _ cells]) (use same in \<open>simp add: same_but_def\<close>)
qed

lemma insort_cmp_map:
  assumes "\<And>b. b \<in> set bs \<Longrightarrow> cmp' (f a) (f b) = cmp a b"
  shows "insort_cmp cmp' (f a) (map f bs) = map f (insort_cmp cmp a bs)"
  using assms by (induction bs) simp_all

lemma set_insort_cmp_any: "set (insort_cmp cmp a bs) = insert a (set bs)"
  by (induction bs) auto

lemma set_sort_cmp_any: "set (sort_cmp cmp as) = set as"
  by (induction as) (simp_all add: sort_cmp_def set_insort_cmp_any)

lemma length_insort_cmp_any: "length (insort_cmp cmp a bs) = Suc (length bs)"
  by (induction bs) auto

lemma length_sort_cmp_any: "length (sort_cmp cmp as) = length as"
  by (induction as) (simp_all add: sort_cmp_def length_insort_cmp_any)

lemma sort_cmp_map:
  assumes "\<And>a b. a \<in> set as \<Longrightarrow> b \<in> set as \<Longrightarrow> cmp' (f a) (f b) = cmp a b"
  shows "sort_cmp cmp' (map f as) = map f (sort_cmp cmp as)"
  using assms
proof (induction as)
  case Nil
  show ?case by (simp add: sort_cmp_def)
next
  case (Cons a as)
  have IH: "sort_cmp cmp' (map f as) = map f (sort_cmp cmp as)"
    by (rule Cons.IH) (simp add: Cons.prems)
  have "insort_cmp cmp' (f a) (map f (sort_cmp cmp as)) = map f (insort_cmp cmp a (sort_cmp cmp as))"
    by (rule insort_cmp_map) (simp add: Cons.prems set_sort_cmp_any)
  with IH show ?case by (simp add: sort_cmp_def)
qed

lemma h_compare_nodes_sim:
  assumes ok: "objects_ok L L1 m h" and a: "a \<in> snd ` set m" and b: "b \<in> snd ` set m"
  shows "compare_nodes bp (store_of m h) (id_at h a) (id_at h b) = h_compare_nodes bp h a b"
proof -
  have dist: "distinct (map fst m)" by (rule objects_ok_distinct[OF ok])
  have "deref (store_of m h) (id_at h c) = tree_node_at h c" if "c \<in> snd ` set m" for c
    by (rule deref_store_of[OF dist objects_ok_address[OF ok that]])
  then show ?thesis
    using a b
    by (simp add: compare_nodes_def h_compare_nodes_def tree_node_at_def as_TreeNode_def)
qed

lemma h_sort_sim:
  assumes ok: "objects_ok L L1 m h" and as: "set as \<subseteq> snd ` set m"
  shows "sort_cmp (compare_nodes bp (store_of m h)) (map (id_at h) as) =
         map (id_at h) (sort_cmp (h_compare_nodes bp h) as)"
proof (rule sort_cmp_map)
  fix a b assume "a \<in> set as" and "b \<in> set as"
  with as have "a \<in> snd ` set m" and "b \<in> snd ` set m" by blast+
  then show "compare_nodes bp (store_of m h) (id_at h a) (id_at h b) = h_compare_nodes bp h a b"
    by (rule h_compare_nodes_sim[OF ok])
qed

lemma as_TreeNode_placed:
  "as_TreeNode f (ob\<lparr>x_prop := Some (of_nat i * (NODE_WIDTH + NODE_SPACING) + NODE_WIDTH / 2),
                     y_prop := Some (of_nat r * LEVEL_HEIGHT + NODE_HEIGHT / 2 + 40)\<rparr>) =
   placed r i (as_TreeNode f ob)"
  by (simp add: as_TreeNode_def placed_def)

lemma as_TreeNode_shifted:
  "as_TreeNode f (ob\<lparr>x_prop := Some (the (x_prop ob) + off)\<rparr>) =
   (as_TreeNode f ob)\<lparr>x := x (as_TreeNode f ob) + off\<rparr>"
  by (simp add: as_TreeNode_def)

lemma h_place_row_sim:
  assumes "objects_ok L L1 m h" and "set as \<subseteq> snd ` set m"
  shows "store_of m (h_place_row r i as h) = place_row r i (map (id_at h) as) (store_of m h) \<and>
         objects_ok L L1 m (h_place_row r i as h) \<and> same_but m h (h_place_row r i as h)"
  using assms
proof (induction as arbitrary: i h)
  case Nil
  then show ?case by (simp add: same_but_refl)
next
  case (Cons a as)
  define ob where
    "ob = (object_at h a)\<lparr>x_prop := Some (of_nat i * (NODE_WIDTH + NODE_SPACING) + NODE_WIDTH / 2),
                          y_prop := Some (of_nat r * LEVEL_HEIGHT + NODE_HEIGHT / 2 + 40)\<rparr>"
  define h1 where "h1 = h[a := Object ob]"
  note ok = Cons.prems(1)
  have am: "a \<in> snd ` set m" and as: "set as \<subseteq> snd ` set m" using Cons.prems(2) by simp_all
  have a: "(id_at h a, a) \<in> set m" by (rule objects_ok_address[OF ok am])
  have idob: "node_id ob = id_at h a" by (simp add: ob_def id_at_def)
  have kids: "set (the (children_prop ob)) \<subseteq> snd ` set m"
    using objects_okD(5)[OF ok a] by (simp add: ob_def)
  have store1: "store_of m h1 = AList.map_entry (id_at h a) (placed r i) (store_of m h)"
    unfolding h1_def
    by (rule store_of_write[OF ok a idob]) (simp add: tree_node_at_def ob_def as_TreeNode_placed)
  have ok1: "objects_ok L L1 m h1"
    unfolding h1_def by (rule objects_ok_write[OF ok a idob kids])
  have same1: "same_but m h h1"
    unfolding h1_def by (rule same_but_write[OF am])
  have ids: "map (id_at h1) as = map (id_at h) as"
    by (rule map_id_at_same[OF ok ok1 as])
  have step: "h_place_row r i (a # as) h = h_place_row r (Suc i) as h1"
    by (simp add: h1_def ob_def)
  from Cons.IH[OF ok1 as, of "Suc i"] show ?case
    unfolding step
    by (simp add: ids store1 place_row_Cons same_but_trans[OF same1] del: place_row.simps(2))
qed

lemma h_shift_row_sim:
  assumes "objects_ok L L1 m h" and "set as \<subseteq> snd ` set m"
  shows "store_of m (h_shift_row off as h) = shift_row off (map (id_at h) as) (store_of m h) \<and>
         objects_ok L L1 m (h_shift_row off as h) \<and> same_but m h (h_shift_row off as h)"
  using assms
proof (induction as arbitrary: h)
  case Nil
  then show ?case by (simp add: same_but_refl)
next
  case (Cons a as)
  define ob where "ob = (object_at h a)\<lparr>x_prop := Some (the (x_prop (object_at h a)) + off)\<rparr>"
  define h1 where "h1 = h[a := Object ob]"
  note ok = Cons.prems(1)
  have am: "a \<in> snd ` set m" and as: "set as \<subseteq> snd ` set m" using Cons.prems(2) by simp_all
  have a: "(id_at h a, a) \<in> set m" by (rule objects_ok_address[OF ok am])
  have idob: "node_id ob = id_at h a" by (simp add: ob_def id_at_def)
  have kids: "set (the (children_prop ob)) \<subseteq> snd ` set m"
    using objects_okD(5)[OF ok a] by (simp add: ob_def)
  have store1: "store_of m h1 =
      AList.map_entry (id_at h a) (\<lambda>node. node\<lparr>x := x node + off\<rparr>) (store_of m h)"
    unfolding h1_def
    by (rule store_of_write[OF ok a idob]) (simp add: tree_node_at_def ob_def as_TreeNode_shifted)
  have ok1: "objects_ok L L1 m h1"
    unfolding h1_def by (rule objects_ok_write[OF ok a idob kids])
  have same1: "same_but m h h1"
    unfolding h1_def by (rule same_but_write[OF am])
  have ids: "map (id_at h1) as = map (id_at h) as"
    by (rule map_id_at_same[OF ok ok1 as])
  have step: "h_shift_row off (a # as) h = h_shift_row off as h1"
    by (simp add: h1_def ob_def)
  from Cons.IH[OF ok1 as] show ?case
    unfolding step
    by (simp add: ids store1 same_but_trans[OF same1])
qed
subsection \<open>The two loops over the round groups on the heap\<close>

lemma h_calculate_positions_Cons:
  "h_calculate_positions bp ((r, g) # gs) mw h =
     h_calculate_positions bp gs
       (max mw (of_nat (length (array_at h g)) * NODE_WIDTH
                + (of_nat (length (array_at h g)) - 1) * NODE_SPACING))
       (h_place_row r 0 (sort_cmp (h_compare_nodes bp h) (array_at h g))
          (h[g := Array (sort_cmp (h_compare_nodes bp h) (array_at h g))]))"
  by (simp add: Let_def length_sort_cmp_any)

lemma h_calculate_positions_sim:
  assumes "objects_ok L L1 m h" and "groups_ok L1 m gs h"
  shows "calculate_positions bp (groups_of gs h) mw (store_of m h) =
           (groups_of gs (snd (h_calculate_positions bp gs mw h)),
            fst (h_calculate_positions bp gs mw h),
            store_of m (snd (h_calculate_positions bp gs mw h))) \<and>
         objects_ok L L1 m (snd (h_calculate_positions bp gs mw h)) \<and>
         groups_ok L1 m gs (snd (h_calculate_positions bp gs mw h)) \<and>
         length (snd (h_calculate_positions bp gs mw h)) = length h \<and>
         (\<forall>c. c \<notin> snd ` set gs \<longrightarrow> c \<notin> snd ` set m \<longrightarrow>
              snd (h_calculate_positions bp gs mw h) ! c = h ! c)"
  using assms
proof (induction gs arbitrary: mw h)
  case Nil
  then show ?case by (simp add: groups_of_def)
next
  case (Cons q gs)
  obtain r g where q: "q = (r, g)" by (cases q)
  note ok = Cons.prems(1)
  have gok: "groups_ok L1 m ((r, g) # gs) h" using Cons.prems(2) q by simp
  have g: "(r, g) \<in> set ((r, g) # gs)" by simp
  define sorted where "sorted = sort_cmp (h_compare_nodes bp h) (array_at h g)"
  define h1 where "h1 = h[g := Array sorted]"
  define h2 where "h2 = h_place_row r 0 sorted h1"
  define mw2 where "mw2 = max mw (of_nat (length (array_at h g)) * NODE_WIDTH
                + (of_nat (length (array_at h g)) - 1) * NODE_SPACING)"
  define res where "res = h_calculate_positions bp gs mw2 h2"
  have step: "h_calculate_positions bp (q # gs) mw h = res"
    unfolding q h_calculate_positions_Cons res_def mw2_def h2_def h1_def sorted_def ..
  have arr: "set (array_at h g) \<subseteq> snd ` set m" by (rule groups_okD(3)[OF gok g])
  have sorted: "set sorted \<subseteq> snd ` set m"
    using arr by (simp add: sorted_def set_sort_cmp_any)
  have glen: "g < length h" by (rule groups_okD(2)[OF gok g])
  have gm: "g \<notin> snd ` set m"
    using group_address_not_object[OF ok gok g] by simp
  have ggs: "g \<notin> snd ` set gs"
    using gok by (simp add: groups_ok_def)
  note w = groups_of_write[where F = "\<lambda>_. map (id_at h) sorted", OF ok gok g sorted refl]
  have ok1: "objects_ok L L1 m h1"
    unfolding h1_def by (rule objects_ok_same_below[OF ok w(3)])
  have store1: "store_of m h1 = store_of m h"
    unfolding h1_def by (rule store_of_same_below[OF ok w(3)])
  have gok1: "groups_ok L1 m ((r, g) # gs) h1"
    unfolding h1_def by (rule w(2))
  note p = h_place_row_sim[OF ok1 sorted, of r 0, folded h2_def]
  have ok2: "objects_ok L L1 m h2" using p by simp
  have same2: "same_but m h1 h2" using p by simp
  have store2: "store_of m h2 = place_row r 0 (map (id_at h) sorted) (store_of m h)"
    using p by (simp add: store1 map_id_at_same[OF ok ok1 sorted])
  note g2 = groups_same_but[OF ok1 ok2 gok1 same2]
  have gok2: "groups_ok L1 m gs h2" by (rule groups_ok_Cons[OF g2(2)])
  have cells2: "h2 ! c = h ! c" if "c \<notin> snd ` set ((r, g) # gs)" "c \<notin> snd ` set m" for c
  proof -
    from that(1) have "c \<noteq> g" by simp
    then have "h1 ! c = h ! c" by (simp add: h1_def)
    with same2 that(2) show ?thesis by (simp add: same_but_def)
  qed
  have tail2: "groups_of gs h2 = groups_of gs h"
  proof (rule groups_of_same[OF groups_ok_Cons[OF gok] _ objects_ok_ids[OF ok ok2]])
    fix q' assume q': "q' \<in> set gs"
    then have "q' \<in> set ((r, g) # gs)" by simp
    from group_address_not_object[OF ok gok this] have nm: "snd q' \<notin> snd ` set m" .
    from q' ggs have "snd q' \<noteq> g" by force
    then have "h1 ! snd q' = h ! snd q'" by (simp add: h1_def)
    with same2 nm show "h2 ! snd q' = h ! snd q'" by (simp add: same_but_def)
  qed
  from Cons.IH[OF ok2 gok2, of mw2, folded res_def]
  have IH: "calculate_positions bp (groups_of gs h2) mw2 (store_of m h2) =
              (groups_of gs (snd res), fst res, store_of m (snd res))"
    and ok': "objects_ok L L1 m (snd res)" and gok': "groups_ok L1 m gs (snd res)"
    and len': "length (snd res) = length h2"
    and cells': "\<forall>c. c \<notin> snd ` set gs \<longrightarrow> c \<notin> snd ` set m \<longrightarrow> snd res ! c = h2 ! c"
    by simp_all
  have len2: "length h2 = length h"
    using same2 by (simp add: same_but_def h1_def)
  have head: "snd res ! g = Array sorted"
  proof -
    from cells' ggs gm have "snd res ! g = h2 ! g" by simp
    also have "h2 ! g = h1 ! g" using same2 gm by (simp add: same_but_def)
    also have "h1 ! g = Array sorted" using glen by (simp add: h1_def)
    finally show ?thesis .
  qed
  have sortedF: "sort_cmp (compare_nodes bp (store_of m h)) (map (id_at h) (array_at h g)) =
                 map (id_at h) sorted"
    unfolding sorted_def by (rule h_sort_sim[OF ok arr])
  have width: "row_width (map (id_at h) (array_at h g)) =
               of_nat (length (array_at h g)) * NODE_WIDTH
                + (of_nat (length (array_at h g)) - 1) * NODE_SPACING"
    by (simp add: row_width_def)
  have "calculate_positions bp (groups_of ((r, g) # gs) h) mw (store_of m h) =
          (groups_of ((r, g) # gs) (snd res), fst res, store_of m (snd res))"
  proof -
    have "groups_of ((r, g) # gs) h = (r, map (id_at h) (array_at h g)) # groups_of gs h"
      by (simp add: groups_of_def)
    moreover have "groups_of ((r, g) # gs) (snd res) =
          (r, map (id_at h) sorted) # groups_of gs (snd res)"
      using head map_id_at_same[OF ok ok' sorted] by (simp add: groups_of_def array_at_def)
    ultimately show ?thesis
      using IH
      by (simp add: calculate_positions_Cons Let_def sortedF width store2 tail2 mw2_def
               del: calculate_positions.simps)
  qed
  moreover have "groups_ok L1 m ((r, g) # gs) (snd res)"
  proof -
    have "L1 \<le> g \<and> g < length (snd res) \<and> set (array_at (snd res) g) \<subseteq> snd ` set m"
      using groups_okD(1)[OF gok g] glen len' len2 head sorted by (simp add: array_at_def)
    then show ?thesis
      using gok gok' unfolding groups_ok_def by simp
  qed
  moreover have "\<forall>c. c \<notin> snd ` set ((r, g) # gs) \<longrightarrow> c \<notin> snd ` set m \<longrightarrow> snd res ! c = h ! c"
  proof (intro allI impI)
    fix c assume c: "c \<notin> snd ` set ((r, g) # gs)" and cm: "c \<notin> snd ` set m"
    from c have "c \<notin> snd ` set gs" by simp
    with cells' cm have "snd res ! c = h2 ! c" by simp
    with cells2[OF c cm] show "snd res ! c = h ! c" by simp
  qed
  ultimately show ?case
    unfolding step using ok' len' len2 unfolding q by simp
qed

lemma h_center_rounds_Cons:
  "h_center_rounds mw ((r, g) # gs) h =
     h_center_rounds mw gs
       (h_shift_row ((mw - (of_nat (length (array_at h g)) * NODE_WIDTH
                            + (of_nat (length (array_at h g)) - 1) * NODE_SPACING)) / 2)
          (array_at h g) h)"
  by (simp add: Let_def)

lemma h_center_rounds_sim:
  assumes "objects_ok L L1 m h" and "groups_ok L1 m gs h"
  shows "store_of m (h_center_rounds mw gs h) = center_rounds mw (groups_of gs h) (store_of m h) \<and>
         objects_ok L L1 m (h_center_rounds mw gs h) \<and>
         same_but m h (h_center_rounds mw gs h)"
  using assms
proof (induction gs arbitrary: h)
  case Nil
  then show ?case by (simp add: groups_of_def same_but_refl)
next
  case (Cons q gs)
  obtain r g where q: "q = (r, g)" by (cases q)
  note ok = Cons.prems(1)
  have gok: "groups_ok L1 m ((r, g) # gs) h" using Cons.prems(2) q by simp
  have g: "(r, g) \<in> set ((r, g) # gs)" by simp
  define off where "off = (mw - (of_nat (length (array_at h g)) * NODE_WIDTH
                            + (of_nat (length (array_at h g)) - 1) * NODE_SPACING)) / 2"
  define h1 where "h1 = h_shift_row off (array_at h g) h"
  have step: "h_center_rounds mw ((r, g) # gs) h = h_center_rounds mw gs h1"
    unfolding h_center_rounds_Cons h1_def off_def ..
  have arr: "set (array_at h g) \<subseteq> snd ` set m" by (rule groups_okD(3)[OF gok g])
  note s = h_shift_row_sim[OF ok arr, of off, folded h1_def]
  have ok1: "objects_ok L L1 m h1" using s by simp
  have same1: "same_but m h h1" using s by simp
  have store1: "store_of m h1 = shift_row off (map (id_at h) (array_at h g)) (store_of m h)"
    using s by simp
  note g1 = groups_same_but[OF ok ok1 groups_ok_Cons[OF gok] same1]
  have off: "(mw - row_width (map (id_at h) (array_at h g))) / 2 = off"
    by (simp add: off_def row_width_def)
  have "groups_of ((r, g) # gs) h = (r, map (id_at h) (array_at h g)) # groups_of gs h"
    by (simp add: groups_of_def)
  with Cons.IH[OF ok1 g1(2)] show ?case
    unfolding q step
    by (simp add: off store1 g1(1) same_but_trans[OF same1])
qed
subsection \<open>The layout on the heap and the layout on the store\<close>

lemma layoutTree_no_root:
  assumes "build_relationships (create_tree_nodes ns) = (None, M)"
  shows "layoutTree ns bp = empty_layout"
  using assms by (simp add: layoutTree_def)

lemma layoutTree_root:
  assumes "ns \<noteq> []" and "build_relationships (create_tree_nodes ns) = (Some r, M)"
    and "calculate_positions bp (group_by_round M) 0 M = (G, mw, M')"
  shows "layoutTree ns bp =
           \<lparr>treeRoot = Some r, width = max (mw + 80) 800,
            height = (of_nat (Max (set (map fst G))) + 1) * LEVEL_HEIGHT + 100,
            treeNodes = center_rounds mw G M'\<rparr>"
  using assms by (simp add: layoutTree_def)

lemma h_layoutTree_no_root:
  assumes "as \<noteq> []" and "h_create_tree_nodes h as = (m, h1)"
    and "h_build_relationships m h1 = (None, h2)"
  shows "h_layoutTree h as bp = (h2, h_empty_layout)"
  using assms by (simp add: h_layoutTree_def)

lemma h_layoutTree_root:
  assumes "as \<noteq> []" and "h_create_tree_nodes h as = (m, h1)"
    and "h_build_relationships m h1 = (Some r, h2)"
    and "h_group_by_round m h2 = (gs, h3)"
    and "h_calculate_positions bp gs 0 h3 = (mw, h4)"
  shows "h_layoutTree h as bp =
           (h_center_rounds mw gs h4,
            \<lparr>h_treeRoot = Some r, h_width = max (mw + 80) 800,
             h_height = (of_nat (Max (set (map fst gs))) + 1) * LEVEL_HEIGHT + 100\<rparr>)"
  using assms by (simp add: h_layoutTree_def)

text \<open>
  The layout on the heap writes no cell that was there before, and what it leaves on the
  heap is the layout of the engine on the store, for the node list read off the heap.
\<close>

lemma h_layoutTree_sim:
  assumes valid: "\<forall>a \<in> set as. a < length h"
    and st: "h_layoutTree h as bp = (h', l)"
  shows "same_below (length h) h h'"
    and "map_option (id_at h') (h_treeRoot l) =
           treeRoot (layoutTree (map (\<lambda>a. ProtocolNode.truncate (object_at h a)) as) bp)"
    and "h_width l = width (layoutTree (map (\<lambda>a. ProtocolNode.truncate (object_at h a)) as) bp)"
    and "h_height l = height (layoutTree (map (\<lambda>a. ProtocolNode.truncate (object_at h a)) as) bp)"
    and "h_treeRoot l = Some r \<Longrightarrow>
           \<exists>m L1. objects_ok (length h) L1 m h' \<and> r \<in> snd ` set m \<and>
              store_of m h' =
                treeNodes (layoutTree (map (\<lambda>a. ProtocolNode.truncate (object_at h a)) as) bp)"
proof -
  define ns where "ns = map (\<lambda>a. ProtocolNode.truncate (object_at h a)) as"
  have "same_below (length h) h h' \<and>
        map_option (id_at h') (h_treeRoot l) = treeRoot (layoutTree ns bp) \<and>
        h_width l = width (layoutTree ns bp) \<and>
        h_height l = height (layoutTree ns bp) \<and>
        (\<forall>r. h_treeRoot l = Some r \<longrightarrow>
           (\<exists>m L1. objects_ok (length h) L1 m h' \<and> r \<in> snd ` set m \<and>
              store_of m h' = treeNodes (layoutTree ns bp)))"
  proof (cases "as = []")
    case True
    with st have "h' = h" "l = h_empty_layout" by (simp_all add: h_layoutTree_def)
    then show ?thesis
      using True
      by (simp add: ns_def layoutTree_def empty_layout_def h_empty_layout_def same_below_refl)
  next
    case False
    then have ns: "ns \<noteq> []" by (simp add: ns_def)
    obtain m h1 where c: "h_create_tree_nodes h as = (m, h1)"
      by (cases "h_create_tree_nodes h as")
    obtain rt h2 where b: "h_build_relationships m h1 = (rt, h2)"
      by (cases "h_build_relationships m h1")
    from h_create_tree_nodes_sim[OF valid]
    have same1: "same_below (length h) h h1" and len1: "length h \<le> length h1"
      and dist: "distinct (map fst m)"
      and fresh: "\<forall>p \<in> set m. length h \<le> snd p \<and> snd p < length h1 \<and>
                  id_at h1 (snd p) = fst p \<and> children_prop (object_at h1 (snd p)) = Some []"
      and store1: "store_of m h1 = create_tree_nodes ns"
      by (simp_all add: c ns_def)
    have ok1: "objects_ok (length h) (length h1) m h1"
      unfolding objects_ok_def using dist fresh len1 by simp
    note bs = h_build_relationships_sim[OF ok1 b]
    have build: "build_relationships (create_tree_nodes ns) =
                   (map_option (id_at h2) rt, store_of m h2)"
      using bs(1) by (simp add: store1)
    have same2: "same_below (length h) h h2"
      by (rule same_below_trans[OF same1 same_but_below[OF ok1 bs(3)]])
    show ?thesis
    proof (cases rt)
      case None
      with b have "h_layoutTree h as bp = (h2, h_empty_layout)"
        by (intro h_layoutTree_no_root[OF False c]) simp
      with st have "h' = h2" "l = h_empty_layout" by simp_all
      moreover have "layoutTree ns bp = empty_layout"
        by (rule layoutTree_no_root[of ns "store_of m h2"]) (simp add: build None)
      ultimately show ?thesis
        using same2 by (simp add: empty_layout_def h_empty_layout_def)
    next
      case (Some r0)
      obtain gs h3 where g: "h_group_by_round m h2 = (gs, h3)"
        by (cases "h_group_by_round m h2")
      define res where "res = h_calculate_positions bp gs 0 h3"
      define h5 where "h5 = h_center_rounds (fst res) gs (snd res)"
      have p: "h_calculate_positions bp gs 0 h3 = (fst res, snd res)"
        by (simp add: res_def)
      note gsim = h_group_by_round_sim[OF bs(2) g]
      have ok3: "objects_ok (length h) (length h1) m h3"
        by (rule objects_ok_same_below[OF bs(2) gsim(3)])
      have store3: "store_of m h3 = store_of m h2"
        by (rule store_of_same_below[OF bs(2) gsim(3)])
      have same3: "same_below (length h) h h3"
        by (rule same_below_trans[OF same2 same_below_le[OF gsim(3) len1]])
      from h_calculate_positions_sim[OF ok3 gsim(2), of bp 0, folded res_def]
      have calc: "calculate_positions bp (group_by_round (store_of m h2)) 0 (store_of m h2) =
                    (groups_of gs (snd res), fst res, store_of m (snd res))"
        and ok4: "objects_ok (length h) (length h1) m (snd res)"
        and gok4: "groups_ok (length h1) m gs (snd res)"
        and len4: "length (snd res) = length h3"
        and cells4: "\<forall>c. c \<notin> snd ` set gs \<longrightarrow> c \<notin> snd ` set m \<longrightarrow> snd res ! c = h3 ! c"
        by (simp_all add: gsim(1) store3)
      have same4: "same_below (length h) h3 (snd res)"
        unfolding same_below_def
      proof (intro conjI allI impI)
        show "length h3 \<le> length (snd res)" using len4 by simp
      next
        fix a assume a: "a < length h"
        have "a \<notin> snd ` set gs"
        proof
          assume "a \<in> snd ` set gs"
          then obtain r' where "(r', a) \<in> set gs" by force
          from groups_okD(1)[OF gok4 this] a len1 show False by simp
        qed
        moreover have "a \<notin> snd ` set m"
        proof
          assume "a \<in> snd ` set m"
          then obtain k where "(k, a) \<in> set m" by force
          from objects_okD(1)[OF ok4 this] a show False by simp
        qed
        ultimately show "snd res ! a = h3 ! a" using cells4 by simp
      qed
      note csim = h_center_rounds_sim[OF ok4 gok4, of "fst res", folded h5_def]
      have ok5: "objects_ok (length h) (length h1) m h5" using csim by simp
      have store5: "store_of m h5 =
                      center_rounds (fst res) (groups_of gs (snd res)) (store_of m (snd res))"
        using csim by simp
      have same5: "same_below (length h) (snd res) h5"
        by (rule same_but_below[OF ok4]) (use csim in simp)
      have "h_layoutTree h as bp =
           (h5, \<lparr>h_treeRoot = Some r0, h_width = max (fst res + 80) 800,
                 h_height = (of_nat (Max (set (map fst gs))) + 1) * LEVEL_HEIGHT + 100\<rparr>)"
        unfolding h5_def by (rule h_layoutTree_root[OF False c _ g p]) (simp add: b Some)
      with st have h': "h' = h5"
        and l: "l = \<lparr>h_treeRoot = Some r0, h_width = max (fst res + 80) 800,
                 h_height = (of_nat (Max (set (map fst gs))) + 1) * LEVEL_HEIGHT + 100\<rparr>"
        by simp_all
      have lay: "layoutTree ns bp =
           \<lparr>treeRoot = Some (id_at h2 r0), width = max (fst res + 80) 800,
            height = (of_nat (Max (set (map fst (groups_of gs (snd res))))) + 1) * LEVEL_HEIGHT + 100,
            treeNodes = center_rounds (fst res) (groups_of gs (snd res)) (store_of m (snd res))\<rparr>"
        by (rule layoutTree_root[OF ns _ calc]) (simp add: build Some)
      have r0: "r0 \<in> snd ` set m" using bs(4) Some by simp
      have id5: "id_at h5 r0 = id_at h2 r0"
        by (rule objects_ok_ids[OF bs(2) ok5 r0])
      have "same_below (length h) h h5"
        by (rule same_below_trans[OF same_below_trans[OF same3 same4] same5])
      moreover have "\<exists>m L1. objects_ok (length h) L1 m h5 \<and> r0 \<in> snd ` set m \<and>
              store_of m h5 = treeNodes (layoutTree ns bp)"
        using ok5 r0 store5 unfolding lay by (intro exI[of _ m] exI[of _ "length h1"]) simp
      ultimately show ?thesis
        unfolding h' using id5 unfolding l lay by (simp add: map_fst_groups_of)
    qed
  qed
  then show "same_below (length h) h h'"
    and "map_option (id_at h') (h_treeRoot l) =
           treeRoot (layoutTree (map (\<lambda>a. ProtocolNode.truncate (object_at h a)) as) bp)"
    and "h_width l = width (layoutTree (map (\<lambda>a. ProtocolNode.truncate (object_at h a)) as) bp)"
    and "h_height l = height (layoutTree (map (\<lambda>a. ProtocolNode.truncate (object_at h a)) as) bp)"
    and "h_treeRoot l = Some r \<Longrightarrow>
           \<exists>m L1. objects_ok (length h) L1 m h' \<and> r \<in> snd ` set m \<and>
              store_of m h' =
                treeNodes (layoutTree (map (\<lambda>a. ProtocolNode.truncate (object_at h a)) as) bp)"
    unfolding ns_def by blast+
qed
subsection \<open>The two traversals on the heap\<close>

lemma visit_all_map: "visit_all f (map g cs) = visit_all (\<lambda>c. f (g c)) cs"
  by (simp add: visit_all_def comp_def)

lemma visit_all_map_option:
  "visit_all (\<lambda>c. map_option (map g) (f c)) cs = map_option (map g) (visit_all f cs)"
proof (induction cs)
  case Nil
  show ?case by (simp add: visit_all_Nil)
next
  case (Cons c cs)
  show ?case
  proof (cases "f c")
    case None
    then show ?thesis by (simp add: visit_all_Cons)
  next
    case (Some a)
    then show ?thesis
      by (cases "visit_all f cs") (simp_all add: visit_all_Cons Cons.IH)
  qed
qed

lemma h_traverse_nodes_Suc:
  "h_traverse_nodes (Suc n) h v =
   map_option (Cons v) (visit_all (h_traverse_nodes n h) (the (children_prop (object_at h v))))"
  by (simp add: visit_all_def option.map_comp comp_def)

lemma h_traverse_edges_Suc:
  "h_traverse_edges (Suc n) bp h v =
   visit_all (\<lambda>c. map_option
                (Cons (v, c, bestPathSet_has bp (id_at h v) \<and> bestPathSet_has bp (id_at h c)))
                (h_traverse_edges n bp h c))
     (the (children_prop (object_at h v)))"
  by (simp add: visit_all_def id_at_def)

declare h_traverse_nodes.simps(2) [simp del] h_traverse_edges.simps(2) [simp del]

lemma node_id_tree_node_at: "node_id (tree_node_at h v) = id_at h v"
  by (simp add: tree_node_at_def as_TreeNode_def id_at_def)

lemma node_of_address:
  assumes ok: "objects_ok L L1 m h" and v: "v \<in> snd ` set m"
  shows "deref (store_of m h) (id_at h v) = tree_node_at h v"
  by (rule deref_store_of[OF objects_ok_distinct[OF ok] objects_ok_address[OF ok v]])

lemma children_of_address:
  assumes ok: "objects_ok L L1 m h" and v: "v \<in> snd ` set m"
  shows "children (deref (store_of m h) (id_at h v)) =
         map (id_at h) (the (children_prop (object_at h v)))"
    and "set (the (children_prop (object_at h v))) \<subseteq> snd ` set m"
proof -
  show "children (deref (store_of m h) (id_at h v)) =
         map (id_at h) (the (children_prop (object_at h v)))"
    by (simp add: node_of_address[OF ok v] tree_node_at_def as_TreeNode_def)
  show "set (the (children_prop (object_at h v))) \<subseteq> snd ` set m"
    by (rule objects_okD(5)[OF ok objects_ok_address[OF ok v]])
qed

lemma h_traverse_nodes_sim:
  assumes ok: "objects_ok L L1 m h" and "v \<in> snd ` set m"
  shows "traverse_nodes n (store_of m h) (id_at h v) =
         map_option (map (id_at h)) (h_traverse_nodes n h v)"
  using assms(2)
proof (induction n arbitrary: v)
  case 0
  show ?case by simp
next
  case (Suc n)
  note kids = children_of_address[OF ok Suc.prems]
  have "visit_all (\<lambda>c. traverse_nodes n (store_of m h) (id_at h c))
          (the (children_prop (object_at h v))) =
        visit_all (\<lambda>c. map_option (map (id_at h)) (h_traverse_nodes n h c))
          (the (children_prop (object_at h v)))"
  proof (rule visit_all_cong[OF refl])
    fix c assume "c \<in> set (the (children_prop (object_at h v)))"
    with kids(2) have "c \<in> snd ` set m" by (rule subsetD)
    then show "traverse_nodes n (store_of m h) (id_at h c) =
               map_option (map (id_at h)) (h_traverse_nodes n h c)"
      by (rule Suc.IH)
  qed
  then show ?case
    unfolding traverse_nodes_Suc h_traverse_nodes_Suc kids(1) visit_all_map
    by (simp add: visit_all_map_option option.map_comp comp_def)
qed

lemma h_traverse_edges_sim:
  assumes ok: "objects_ok L L1 m h" and "v \<in> snd ` set m"
  shows "traverse_edges n bp (store_of m h) (id_at h v) =
         map_option (map (\<lambda>e. (id_at h (fst e), id_at h (fst (snd e)), snd (snd e))))
           (h_traverse_edges n bp h v)"
  using assms(2)
proof (induction n arbitrary: v)
  case 0
  show ?case by simp
next
  case (Suc n)
  let ?view = "\<lambda>e. (id_at h (fst e), id_at h (fst (snd e)), snd (snd e))"
  note kids = children_of_address[OF ok Suc.prems]
  have idv: "node_id (deref (store_of m h) (id_at h v)) = id_at h v"
    by (simp add: node_of_address[OF ok Suc.prems] node_id_tree_node_at)
  have "visit_all (\<lambda>c. map_option (Cons (edge_to bp (store_of m h) (id_at h v) (id_at h c)))
                         (traverse_edges n bp (store_of m h) (id_at h c)))
          (the (children_prop (object_at h v))) =
        visit_all (\<lambda>c. map_option (map ?view)
                         (map_option
                            (Cons (v, c, bestPathSet_has bp (id_at h v) \<and>
                                         bestPathSet_has bp (id_at h c)))
                            (h_traverse_edges n bp h c)))
          (the (children_prop (object_at h v)))"
  proof (rule visit_all_cong[OF refl])
    fix c assume "c \<in> set (the (children_prop (object_at h v)))"
    with kids(2) have c: "c \<in> snd ` set m" by (rule subsetD)
    have idc: "node_id (deref (store_of m h) (id_at h c)) = id_at h c"
      by (simp add: node_of_address[OF ok c] node_id_tree_node_at)
    show "map_option (Cons (edge_to bp (store_of m h) (id_at h v) (id_at h c)))
            (traverse_edges n bp (store_of m h) (id_at h c)) =
          map_option (map ?view)
            (map_option
               (Cons (v, c, bestPathSet_has bp (id_at h v) \<and> bestPathSet_has bp (id_at h c)))
               (h_traverse_edges n bp h c))"
      unfolding Suc.IH[OF c] edge_to_def idv idc
      by (simp add: option.map_comp comp_def)
  qed
  then show ?case
    unfolding traverse_edges_Suc h_traverse_edges_Suc kids(1) visit_all_map
    by (simp only: visit_all_map_option)
qed

lemma h_traverse_nodes_members:
  assumes ok: "objects_ok L L1 m h"
  shows "v \<in> snd ` set m \<Longrightarrow> h_traverse_nodes n h v = Some as \<Longrightarrow> set as \<subseteq> snd ` set m"
proof (induction n arbitrary: v as)
  case 0
  then show ?case by simp
next
  case (Suc n)
  note kids = children_of_address[OF ok Suc.prems(1)]
  from Suc.prems(2) obtain rest where
    rest: "visit_all (h_traverse_nodes n h) (the (children_prop (object_at h v))) = Some rest"
    and as: "as = v # rest"
    by (auto simp: h_traverse_nodes_Suc)
  have "set rest \<subseteq> snd ` set m"
  proof
    fix e assume "e \<in> set rest"
    from visit_all_member[OF rest this]
    obtain c a where c: "c \<in> set (the (children_prop (object_at h v)))"
      and a: "h_traverse_nodes n h c = Some a" and e: "e \<in> set a"
      by blast
    from kids(2) c have "c \<in> snd ` set m" by (rule subsetD)
    from Suc.IH[OF this a] e show "e \<in> snd ` set m" by (rule subsetD)
  qed
  with Suc.prems(1) show ?case by (simp add: as)
qed

subsection \<open>A render on the heap and the engine on the store\<close>

lemma h_render_eq:
  assumes "h_layoutTree h (array_at h nodes_ref) (bestPath_given h bestPath_ref) = (h', l)"
  shows "h_render fuel h nodes_ref bestPath_ref =
           \<lparr>heap_after = h', layout_ref = l,
            edge_refs = (case h_treeRoot l of None \<Rightarrow> Some []
                         | Some r \<Rightarrow> h_traverse_edges fuel (bestPath_given h bestPath_ref) h' r),
            node_refs = (case h_treeRoot l of None \<Rightarrow> Some []
                         | Some r \<Rightarrow> h_traverse_nodes fuel h' r)\<rparr>"
  using assms unfolding h_render_def bestPath_given_def by (simp add: Let_def)

text \<open>
  A render on the heap shows what the engine on the store computes for the node list and
  the best path read off the heap, and leaves every cell that was there as it was.
\<close>

lemma h_render_sim:
  assumes valid: "\<forall>a \<in> set (array_at h nodes_ref). a < length h"
  shows "take (length h) (heap_after (h_render fuel h nodes_ref bestPath_ref)) = h"
    and "shown_canvas (h_render fuel h nodes_ref bestPath_ref) =
           (treeRoot (layoutTree (nodes_given h nodes_ref) (bestPath_given h bestPath_ref)),
            width (layoutTree (nodes_given h nodes_ref) (bestPath_given h bestPath_ref)),
            height (layoutTree (nodes_given h nodes_ref) (bestPath_given h bestPath_ref)))"
    and "shown_edges (h_render fuel h nodes_ref bestPath_ref) =
           edges fuel (layoutTree (nodes_given h nodes_ref) (bestPath_given h bestPath_ref))
             (bestPath_given h bestPath_ref)"
    and "shown_nodes (h_render fuel h nodes_ref bestPath_ref) =
           drawn_nodes fuel (layoutTree (nodes_given h nodes_ref) (bestPath_given h bestPath_ref))"
proof -
  define bp where "bp = bestPath_given h bestPath_ref"
  define lt where "lt = layoutTree (nodes_given h nodes_ref) bp"
  obtain h' l where st: "h_layoutTree h (array_at h nodes_ref) bp = (h', l)"
    by (cases "h_layoutTree h (array_at h nodes_ref) bp")
  note R = h_render_eq[OF st[unfolded bp_def], folded bp_def]
  note sim = h_layoutTree_sim[OF valid st, folded nodes_given_def, folded lt_def]
  show "take (length h) (heap_after (h_render fuel h nodes_ref bestPath_ref)) = h"
    unfolding R using same_below_take[OF sim(1)] by simp
  show "shown_canvas (h_render fuel h nodes_ref bestPath_ref) =
           (treeRoot (layoutTree (nodes_given h nodes_ref) (bestPath_given h bestPath_ref)),
            width (layoutTree (nodes_given h nodes_ref) (bestPath_given h bestPath_ref)),
            height (layoutTree (nodes_given h nodes_ref) (bestPath_given h bestPath_ref)))"
    unfolding R bp_def[symmetric] lt_def[symmetric]
    using sim(2,3,4) by (simp add: shown_canvas_def id_at_def[abs_def])
  show "shown_edges (h_render fuel h nodes_ref bestPath_ref) =
           edges fuel (layoutTree (nodes_given h nodes_ref) (bestPath_given h bestPath_ref))
             (bestPath_given h bestPath_ref)"
    unfolding bp_def[symmetric] lt_def[symmetric]
  proof (cases "h_treeRoot l")
    case None
    with sim(2) have "treeRoot lt = None" by simp
    with None show "shown_edges (h_render fuel h nodes_ref bestPath_ref) = edges fuel lt bp"
      unfolding R by (simp add: shown_edges_def edges_def)
  next
    case (Some r)
    from sim(5)[OF Some] obtain m L1 where ok: "objects_ok (length h) L1 m h'"
      and r: "r \<in> snd ` set m" and store: "store_of m h' = treeNodes lt"
      by blast
    from sim(2) Some have root: "treeRoot lt = Some (id_at h' r)" by simp
    show "shown_edges (h_render fuel h nodes_ref bestPath_ref) = edges fuel lt bp"
      unfolding R
      using h_traverse_edges_sim[OF ok r, of fuel bp]
      by (simp add: shown_edges_def edges_def root Some store id_at_def[abs_def])
  qed
  show "shown_nodes (h_render fuel h nodes_ref bestPath_ref) =
           drawn_nodes fuel (layoutTree (nodes_given h nodes_ref) (bestPath_given h bestPath_ref))"
    unfolding bp_def[symmetric] lt_def[symmetric]
  proof (cases "h_treeRoot l")
    case None
    with sim(2) have "treeRoot lt = None" by simp
    with None show "shown_nodes (h_render fuel h nodes_ref bestPath_ref) = drawn_nodes fuel lt"
      unfolding R by (simp add: shown_nodes_def drawn_nodes_def allNodes_def)
  next
    case (Some r)
    from sim(5)[OF Some] obtain m L1 where ok: "objects_ok (length h) L1 m h'"
      and r: "r \<in> snd ` set m" and store: "store_of m h' = treeNodes lt"
      by blast
    from sim(2) Some have root: "treeRoot lt = Some (id_at h' r)" by simp
    have all: "allNodes fuel lt = map_option (map (id_at h')) (h_traverse_nodes fuel h' r)"
      using h_traverse_nodes_sim[OF ok r, of fuel] by (simp add: allNodes_def root store)
    show "shown_nodes (h_render fuel h nodes_ref bestPath_ref) = drawn_nodes fuel lt"
    proof (cases "h_traverse_nodes fuel h' r")
      case None
      then show ?thesis
        unfolding R by (simp add: shown_nodes_def drawn_nodes_def all Some)
    next
      case trav: (Some as)
      have "(id_at h' a, the (x_prop (object_at h' a)), the (y_prop (object_at h' a))) =
            (id_at h' a, x (deref (treeNodes lt) (id_at h' a)), y (deref (treeNodes lt) (id_at h' a)))"
        if "a \<in> set as" for a
      proof -
        from h_traverse_nodes_members[OF ok r trav] that have "a \<in> snd ` set m"
          by (rule subsetD)
        from node_of_address[OF ok this] show ?thesis
          by (simp add: store tree_node_at_def as_TreeNode_def)
      qed
      then show ?thesis
        unfolding R
        by (simp add: shown_nodes_def drawn_nodes_def all Some trav id_at_def[symmetric]
                 cong: map_cong)
    qed
  qed
qed

subsection \<open>Two renders\<close>

lemma well_typed_addresses:
  "well_typed h nodes_ref bestPath_ref \<Longrightarrow> \<forall>a \<in> set (array_at h nodes_ref). a < length h"
  by (simp add: well_typed_def list_all_iff)

lemma length_nodes_given: "length (nodes_given h nodes_ref) = length (array_at h nodes_ref)"
  by (simp add: nodes_given_def)

lemma edges_two_calls:
  assumes "set bp = set bp'" and "length ns < fuel" and "length ns < fuel'"
  shows "edges fuel (layoutTree ns bp) bp = edges fuel' (layoutTree ns bp') bp'"
    and "edges fuel (layoutTree ns bp) bp \<noteq> None"
proof -
  have lens: "length (skeleton ns) < fuel" "length (skeleton ns) < fuel'"
    using length_skeleton[of ns] assms(2,3) by simp_all
  show "edges fuel (layoutTree ns bp) bp = edges fuel' (layoutTree ns bp') bp'"
  proof (cases "root_of ns")
    case None
    then show ?thesis by (simp add: edges_layoutTree)
  next
    case (Some r)
    show ?thesis
      using traverse_edges_fuel[OF linked_skeleton is_root_skeleton[OF Some] lens, of bp]
        traverse_edges_set[OF assms(1), of fuel' "skeleton ns" r]
      by (simp add: edges_layoutTree Some)
  qed
  show "edges fuel (layoutTree ns bp) bp \<noteq> None"
  proof (cases "root_of ns")
    case None
    then show ?thesis by (simp add: edges_layoutTree)
  next
    case (Some r)
    from traverse_nodes_total[OF linked_skeleton is_root_skeleton[OF Some] lens(1)]
    show ?thesis
      using traverse_edges_None[of fuel bp "skeleton ns" r] by (auto simp: edges_layoutTree Some)
  qed
qed

lemma drawn_nodes_two_calls:
  assumes "set bp = set bp'" and "length ns < fuel" and "length ns < fuel'"
  shows "drawn_nodes fuel (layoutTree ns bp) = drawn_nodes fuel' (layoutTree ns bp')"
    and "drawn_nodes fuel (layoutTree ns bp) \<noteq> None"
proof -
  have lens: "length (skeleton ns) < fuel" "length (skeleton ns) < fuel'"
    using length_skeleton[of ns] assms(2,3) by simp_all
  have l: "layoutTree ns bp' = layoutTree ns bp"
    by (rule layoutTree_set[OF assms(1), symmetric])
  have "allNodes fuel (layoutTree ns bp) = allNodes fuel' (layoutTree ns bp)"
  proof (cases "root_of ns")
    case None
    then show ?thesis by (simp add: allNodes_layoutTree)
  next
    case (Some r)
    show ?thesis
      using traverse_nodes_fuel[OF linked_skeleton is_root_skeleton[OF Some] lens]
      by (simp add: allNodes_layoutTree Some)
  qed
  then show "drawn_nodes fuel (layoutTree ns bp) = drawn_nodes fuel' (layoutTree ns bp')"
    by (simp add: drawn_nodes_def l)
  show "drawn_nodes fuel (layoutTree ns bp) \<noteq> None"
  proof (cases "root_of ns")
    case None
    then show ?thesis by (simp add: drawn_nodes_def allNodes_layoutTree)
  next
    case (Some r)
    from traverse_nodes_total[OF linked_skeleton is_root_skeleton[OF Some] lens(1)]
    show ?thesis by (auto simp: drawn_nodes_def allNodes_layoutTree Some)
  qed
qed

text \<open>
  Claim C7.  The layout engine is deterministic and preserves its input.  Take two
  invocations, on any two heaps and through any references, that are given the same
  flat node list (the same node values in the same order) and best paths with the same
  set of ids; the arrays and the node objects may lie at different addresses, and the
  rest of the two heaps may differ in any way.  Then both invocations return (the
  traversals get a depth count above the number of nodes), and they show the same
  nodes with the same coordinates, the same edges with the same flags, and the same
  root and canvas size.  Neither invocation writes a cell that was on its heap before:
  the array \<open>nodes\<close>, every node object and the array \<open>bestPath\<close> are after the
  invocation what they were before, and so is every other cell; all that the engine
  writes are the objects and arrays that it has allocated itself.
\<close>

theorem render_deterministic:
  assumes "well_typed h nodes_ref bestPath_ref"
    and "well_typed h' nodes_ref' bestPath_ref'"
    and "nodes_given h nodes_ref = nodes_given h' nodes_ref'"
    and "set (bestPath_given h bestPath_ref) = set (bestPath_given h' bestPath_ref')"
    and "length (nodes_given h nodes_ref) < fuel"
    and "length (nodes_given h nodes_ref) < fuel'"
  shows "shown_nodes (h_render fuel h nodes_ref bestPath_ref)
           = shown_nodes (h_render fuel' h' nodes_ref' bestPath_ref')
       \<and> shown_edges (h_render fuel h nodes_ref bestPath_ref)
           = shown_edges (h_render fuel' h' nodes_ref' bestPath_ref')
       \<and> shown_canvas (h_render fuel h nodes_ref bestPath_ref)
           = shown_canvas (h_render fuel' h' nodes_ref' bestPath_ref')
       \<and> shown_nodes (h_render fuel h nodes_ref bestPath_ref) \<noteq> None
       \<and> shown_edges (h_render fuel h nodes_ref bestPath_ref) \<noteq> None
       \<and> take (length h) (heap_after (h_render fuel h nodes_ref bestPath_ref)) = h
       \<and> take (length h') (heap_after (h_render fuel' h' nodes_ref' bestPath_ref')) = h'"
proof -
  note a = h_render_sim[OF well_typed_addresses[OF assms(1)], of fuel bestPath_ref]
  note b = h_render_sim[OF well_typed_addresses[OF assms(2)], of fuel' bestPath_ref',
                        folded assms(3)]
  note l = layoutTree_set[OF assms(4), of "nodes_given h nodes_ref"]
  note e = edges_two_calls[OF assms(4,5,6)]
  note d = drawn_nodes_two_calls[OF assms(4,5,6)]
  show ?thesis
    unfolding a b using l e d by simp
qed

theorem render_deterministic_witness:
  "well_typed heap_1 2 3 \<and> well_typed heap_2 1 0
   \<and> nodes_given heap_1 2 = nodes_given heap_2 1
   \<and> set (bestPath_given heap_1 3) = set (bestPath_given heap_2 0)
   \<and> length (nodes_given heap_1 2) < 3 \<and> length (nodes_given heap_1 2) < 5
   \<and> shown_nodes (h_render 3 heap_1 2 3) = Some [(''n0'', 70, 80), (''n1'', 70, 240)]
   \<and> shown_nodes (h_render 5 heap_2 1 0) = shown_nodes (h_render 3 heap_1 2 3)
   \<and> shown_edges (h_render 3 heap_1 2 3) = Some [(''n0'', ''n1'', True)]
   \<and> shown_edges (h_render 5 heap_2 1 0) = shown_edges (h_render 3 heap_1 2 3)
   \<and> shown_canvas (h_render 3 heap_1 2 3) = (Some ''n0'', 800, 420)
   \<and> shown_canvas (h_render 5 heap_2 1 0) = shown_canvas (h_render 3 heap_1 2 3)
   \<and> length (heap_after (h_render 3 heap_1 2 3)) = 8
   \<and> take (length heap_1) (heap_after (h_render 3 heap_1 2 3)) = heap_1
   \<and> take (length heap_2) (heap_after (h_render 5 heap_2 1 0)) = heap_2"
proof -
  have w1: "well_typed heap_1 2 3" by code_simp
  have w2: "well_typed heap_2 1 0" by code_simp
  have ns: "nodes_given heap_1 2 = nodes_given heap_2 1" by code_simp
  have bp: "set (bestPath_given heap_1 3) = set (bestPath_given heap_2 0)"
    by (auto simp: bestPath_given_def heap_1_def heap_2_def)
  have len: "length (nodes_given heap_1 2) < 3" "length (nodes_given heap_1 2) < 5"
    by (simp_all add: nodes_given_def heap_1_def array_at_def)
  have n1: "shown_nodes (h_render 3 heap_1 2 3) = Some [(''n0'', 70, 80), (''n1'', 70, 240)]"
    by code_simp
  have e1: "shown_edges (h_render 3 heap_1 2 3) = Some [(''n0'', ''n1'', True)]"
    by code_simp
  have c1: "shown_canvas (h_render 3 heap_1 2 3) = (Some ''n0'', 800, 420)"
    by code_simp
  have l1: "length (heap_after (h_render 3 heap_1 2 3)) = 8"
    by code_simp
  from render_deterministic[OF w1 w2 ns bp len] w1 w2 ns bp len n1 e1 c1 l1
  show ?thesis by simp
qed

end
